theory Spec2Isabelle
  imports Complex_Main
begin

section \<open>Results, errors and array accesses\<close>

text \<open>
  The C++ sources signal failure by exceptions (\<open>std::domain_error\<close>,
  \<open>std::invalid_argument\<close>, \<open>std::runtime_error\<close>; \<open>std::length_error\<close> when a
  \<open>std::vector\<close> is asked for a negative size).  An access outside an array is undefined
  behaviour in C++; the model makes it the explicit outcome \<open>OutOfBounds\<close>.  A computation
  that does not return (unbounded recursion or an endless loop) has the value \<open>None\<close>.
\<close>

datatype error = DomainError | InvalidArgument | RuntimeError | LengthError | OutOfBounds

type_synonym 'a res = "(error + 'a) option"

definition ok :: "'a \<Rightarrow> 'a res" where
  "ok x = Some (Inr x)"

definition throw :: "error \<Rightarrow> 'a res" where
  "throw e = Some (Inl e)"

definition bindR :: "'a res \<Rightarrow> ('a \<Rightarrow> 'b res) \<Rightarrow> 'b res" where
  "bindR m f = (case m of None \<Rightarrow> None | Some (Inl e) \<Rightarrow> Some (Inl e) | Some (Inr x) \<Rightarrow> f x)"

lemma bindR_bind:
  "bindR m f = Option.bind m (\<lambda>r. case r of Inl e \<Rightarrow> Some (Inl e) | Inr x \<Rightarrow> f x)"
  by (auto simp: bindR_def split: option.splits sum.splits)

lemma bindR_mono [partial_function_mono]:
  assumes mf: "mono_option B"
    and mg: "\<And>y. mono_option (\<lambda>f. C y f)"
  shows "mono_option (\<lambda>f. bindR (B f) (\<lambda>y. C y f))"
  unfolding bindR_bind
proof (rule bind_mono [OF mf])
  fix r
  show "mono_option (\<lambda>f. case r of Inl e \<Rightarrow> Some (Inl e) | Inr x \<Rightarrow> C x f)"
    by (cases r) (simp_all add: mg option.const_mono)
qed

text \<open>Arrays indexed by \<open>ssize_t\<close> (modelled as \<open>int\<close>) and by \<open>ulonglong\<close> (\<open>nat\<close>).\<close>

definition rd :: "'a list \<Rightarrow> int \<Rightarrow> 'a res" where
  "rd xs i = (if 0 \<le> i \<and> i < int (length xs) then ok (xs ! nat i) else throw OutOfBounds)"

definition wr :: "'a list \<Rightarrow> int \<Rightarrow> 'a \<Rightarrow> 'a list res" where
  "wr xs i v = (if 0 \<le> i \<and> i < int (length xs) then ok (xs[nat i := v]) else throw OutOfBounds)"

definition rdn :: "'a list \<Rightarrow> nat \<Rightarrow> 'a res" where
  "rdn xs i = (if i < length xs then ok (xs ! i) else throw OutOfBounds)"

definition wrn :: "'a list \<Rightarrow> nat \<Rightarrow> 'a \<Rightarrow> 'a list res" where
  "wrn xs i v = (if i < length xs then ok (xs[i := v]) else throw OutOfBounds)"

text \<open>A counted loop \<open>for (i = a; i < b; ++i) body\<close> runs \<open>body\<close> over \<open>[a..b - 1]\<close>
  and stops at the first exception.\<close>

fun forM :: "int list \<Rightarrow> (int \<Rightarrow> 's \<Rightarrow> 's res) \<Rightarrow> 's \<Rightarrow> 's res" where
  "forM [] body s = ok s"
| "forM (i # is) body s = bindR (body i s) (forM is body)"

text \<open>Conversion of an \<open>ssize_t\<close> argument to an \<open>unsigned long long\<close> parameter.\<close>

definition to_ull :: "int \<Rightarrow> nat" where
  "to_ull x = nat (x mod 2 ^ 64)"

text \<open>The result of an arithmetic step on a C++ \<open>int\<close> (32 bits, two's complement).  A signed
  overflow is undefined behaviour in C++; the model writes out the wrap-around of the usual
  platforms, and the statements below keep the counter within the range of \<open>int\<close>.\<close>

definition wrap_int :: "int \<Rightarrow> int" where
  "wrap_int x = (x + 2 ^ 31) mod 2 ^ 32 - 2 ^ 31"


section \<open>\<open>disjoint_sets.h\<close>: class \<open>DisjointSets\<close>\<close>

record DisjointSets =
  ds_n :: nat
  ds_k :: nat
  par :: "nat list"

definition DisjointSets_new :: "nat \<Rightarrow> DisjointSets" where
  "DisjointSets_new n = \<lparr>ds_n = n, ds_k = n, par = [0..<n]\<rparr>"

text \<open>\<open>find\<close> is recursive in the source; on a parent array with a cycle it does not return.\<close>

partial_function (option) DisjointSets_find ::
  "'a DisjointSets_scheme \<Rightarrow> nat \<Rightarrow> ('a DisjointSets_scheme \<times> nat) res" where
  "DisjointSets_find d x =
     (if x \<ge> ds_n d then throw DomainError
      else bindR (rdn (par d) x) (\<lambda>px.
        if px \<noteq> x then
          bindR (DisjointSets_find d px) (\<lambda>(d1, r).
          bindR (wrn (par d1) x r) (\<lambda>p1.
          ok (d1\<lparr>par := p1\<rparr>, r)))
        else ok (d, px)))"

declare DisjointSets_find.simps [code]

text \<open>\<open>k\<close> is an \<open>unsigned long long\<close>: decrementing zero wraps around.\<close>

definition dec_ull :: "nat \<Rightarrow> nat" where
  "dec_ull k = (if k = 0 then 2 ^ 64 - 1 else k - 1)"

definition DisjointSets_merge ::
  "'a DisjointSets_scheme \<Rightarrow> nat \<Rightarrow> nat \<Rightarrow> ('a DisjointSets_scheme \<times> nat) res" where
  "DisjointSets_merge d x y =
     bindR (DisjointSets_find d x) (\<lambda>(d1, x1).
     bindR (DisjointSets_find d1 y) (\<lambda>(d2, y1).
       if x1 = y1 then throw InvalidArgument
       else let (x2, y2) = (if y1 < x1 then (y1, x1) else (x1, y1)) in
         bindR (wrn (par d2) y2 x2) (\<lambda>p.
         ok (d2\<lparr>par := p, ds_k := dec_ull (ds_k d2)\<rparr>, x2))))"



section \<open>\<open>c_gini_disjoint_sets.h\<close>: class \<open>CGiniDisjointSets\<close>\<close>

text \<open>
  Modelled from the spec: the header \<open>c_gini_disjoint_sets.h\<close> included by \<open>c_genie.h\<close>
  is not among the sources.  The specification describes the class as the union-find above
  together with the size \<open>cnt[r]\<close> of every root \<open>r\<close>, and three queries: \<open>get_gini\<close>, the
  Gini index of the current multiset of set sizes, \<open>get_smallest_count\<close>, the minimum size
  present, and \<open>get_count(x)\<close>, the size of the set containing \<open>x\<close>.  The index of the
  ascending sizes \<open>s\<^sub>1 \<le> \<dots> \<le> s\<^sub>k\<close> is
  \<open>(\<Sum>i=1..k. (2 i - k - 1) s\<^sub>i) / ((k - 1) \<Sum>i. s\<^sub>i)\<close>, and 0 when \<open>k = 1\<close>.  The \<open>double\<close>
  of the specification is an exact rational here.
\<close>

record CGiniDisjointSets = DisjointSets +
  cnt :: "nat list"

definition CGiniDisjointSets_new :: "nat \<Rightarrow> CGiniDisjointSets" where
  "CGiniDisjointSets_new n = \<lparr>ds_n = n, ds_k = n, par = [0..<n], cnt = replicate n 1\<rparr>"

definition set_sizes :: "CGiniDisjointSets \<Rightarrow> nat list" where
  "set_sizes d = sort (map (\<lambda>r. cnt d ! r) (filter (\<lambda>r. par d ! r = r) [0..<ds_n d]))"

definition gini_index :: "nat list \<Rightarrow> rat" where
  "gini_index s =
     (let k = length s in
      if k \<le> 1 then 0
      else of_int (\<Sum>i\<leftarrow>[0..<k]. (2 * (int i + 1) - int k - 1) * int (s ! i))
           / of_int ((int k - 1) * int (sum_list s)))"

definition get_gini :: "CGiniDisjointSets \<Rightarrow> rat" where
  "get_gini d = gini_index (set_sizes d)"

definition get_smallest_count :: "CGiniDisjointSets \<Rightarrow> nat" where
  "get_smallest_count d = (case set_sizes d of [] \<Rightarrow> 0 | s # _ \<Rightarrow> s)"

definition get_count :: "CGiniDisjointSets \<Rightarrow> nat \<Rightarrow> (CGiniDisjointSets \<times> nat) res" where
  "get_count d x =
     bindR (DisjointSets_find d x) (\<lambda>(d1, r).
     bindR (rdn (cnt d1) r) (\<lambda>c.
     ok (d1, c)))"

definition CGiniDisjointSets_merge ::
  "CGiniDisjointSets \<Rightarrow> nat \<Rightarrow> nat \<Rightarrow> (CGiniDisjointSets \<times> nat) res" where
  "CGiniDisjointSets_merge d x y =
     bindR (DisjointSets_find d x) (\<lambda>(d1, x1).
     bindR (DisjointSets_find d1 y) (\<lambda>(d2, y1).
       if x1 = y1 then throw InvalidArgument
       else let (x2, y2) = (if y1 < x1 then (y1, x1) else (x1, y1)) in
         bindR (wrn (par d2) y2 x2) (\<lambda>p.
         bindR (rdn (cnt d2) x2) (\<lambda>cx.
         bindR (rdn (cnt d2) y2) (\<lambda>cy.
         bindR (wrn (cnt d2) x2 (cx + cy)) (\<lambda>c.
         ok (d2\<lparr>par := p, ds_k := dec_ull (ds_k d2), cnt := c\<rparr>, x2)))))))"


section \<open>\<open>c_genie.h\<close>\<close>

subsection \<open>\<open>Cget_graph_node_degrees\<close>\<close>

definition degrees_body :: "int list \<Rightarrow> int \<Rightarrow> int \<Rightarrow> int list \<Rightarrow> int list res" where
  "degrees_body ind n i deg =
     bindR (rd ind (2 * i + 0)) (\<lambda>u.
     bindR (rd ind (2 * i + 1)) (\<lambda>v.
       if u < 0 \<or> v < 0 then ok deg
       else if u \<ge> n \<or> v \<ge> n then throw DomainError
       else if u = v then throw DomainError
       else
         bindR (rd deg u) (\<lambda>du.
         bindR (wr deg u (du + 1)) (\<lambda>deg1.
         bindR (rd deg1 v) (\<lambda>dv.
         wr deg1 v (dv + 1))))))"

definition Cget_graph_node_degrees :: "int list \<Rightarrow> int \<Rightarrow> int \<Rightarrow> int list \<Rightarrow> int list res" where
  "Cget_graph_node_degrees ind num_edges n deg =
     bindR (forM [0..n - 1] (\<lambda>i deg. wr deg i 0) deg) (\<lambda>deg0.
     forM [0..num_edges - 1] (degrees_body ind n) deg0)"

subsection \<open>Class \<open>CGenie\<close>\<close>

record 'a CGenie =
  mst_d :: "'a list"
  mst_i :: "int list"
  cg_n :: int
  noise_leaves :: bool
  deg :: "int list"
  noise_count :: int
  denoise_index :: "int list"
  denoise_index_rev :: "int list"
  next_edge :: "int list"
  prev_edge :: "int list"
  curidx :: int
  lastidx :: int
  ds :: CGiniDisjointSets

subsubsection \<open>\<open>skiplist_init\<close>\<close>

definition skiplist_link :: "int \<Rightarrow> 'a CGenie \<Rightarrow> 'a CGenie res" where
  "skiplist_link i g =
     bindR (if curidx g < 0 then
              bindR (wr (prev_edge g) i (- 1)) (\<lambda>pe.
              ok (g\<lparr>curidx := i, prev_edge := pe\<rparr>))
            else
              bindR (wr (next_edge g) (lastidx g) i) (\<lambda>ne.
              bindR (wr (prev_edge g) i (lastidx g)) (\<lambda>pe.
              ok (g\<lparr>next_edge := ne, prev_edge := pe\<rparr>)))) (\<lambda>g1.
     ok (g1\<lparr>lastidx := i\<rparr>))"

definition skiplist_noise_body :: "int \<Rightarrow> 'a CGenie \<Rightarrow> 'a CGenie res" where
  "skiplist_noise_body i g =
     bindR (rd (mst_i g) (2 * i + 0)) (\<lambda>i1.
     bindR (rd (mst_i g) (2 * i + 1)) (\<lambda>i2.
     bindR (rd (deg g) i1) (\<lambda>d1.
       if d1 > 1 then
         bindR (rd (deg g) i2) (\<lambda>d2.
           if d2 > 1 then skiplist_link i g else ok g)
       else ok g)))"

definition skiplist_plain_body :: "int \<Rightarrow> 'a CGenie \<Rightarrow> 'a CGenie res" where
  "skiplist_plain_body i g =
     bindR (wr (next_edge g) i (i + 1)) (\<lambda>ne.
     bindR (wr (prev_edge g) i (i - 1)) (\<lambda>pe.
     ok (g\<lparr>next_edge := ne, prev_edge := pe\<rparr>)))"

definition skiplist_init :: "'a CGenie \<Rightarrow> 'a CGenie res" where
  "skiplist_init g =
     (if noise_leaves g then
        bindR (forM [0..cg_n g - 1 - 1] skiplist_noise_body (g\<lparr>curidx := - 1, lastidx := - 1\<rparr>)) (\<lambda>g1.
        bindR (wr (next_edge g1) (lastidx g1) (cg_n g1 - 1)) (\<lambda>ne.
        ok (g1\<lparr>next_edge := ne, lastidx := curidx g1\<rparr>)))
      else
        forM [0..cg_n g - 1 - 1] skiplist_plain_body (g\<lparr>curidx := 0, lastidx := 0\<rparr>))"

subsubsection \<open>\<open>do_genie\<close>\<close>

text \<open>The inner \<open>while\<close> loop of the Genie branch: it follows \<open>next_edge\<close> from \<open>lastidx\<close>
  until an end point of the edge lies in a set of size \<open>m\<close>.  \<open>get_count\<close> goes through
  \<open>find\<close>, so the disjoint sets are threaded through.\<close>

partial_function (option) genie_walk :: "'a CGenie \<Rightarrow> int \<Rightarrow> 'a CGenie res" where
  "genie_walk g m =
     bindR (rd (mst_i g) (2 * lastidx g + 0)) (\<lambda>u.
     bindR (rd (denoise_index_rev g) u) (\<lambda>ru.
     bindR (get_count (ds g) (to_ull ru)) (\<lambda>(d1, c1).
       if int c1 \<noteq> m then
         bindR (rd (mst_i g) (2 * lastidx g + 1)) (\<lambda>v.
         bindR (rd (denoise_index_rev g) v) (\<lambda>rv.
         bindR (get_count d1 (to_ull rv)) (\<lambda>(d2, c2).
           if int c2 \<noteq> m then
             bindR (rd (next_edge g) (lastidx g)) (\<lambda>nx.
             genie_walk (g\<lparr>ds := d2, lastidx := nx\<rparr>) m)
           else ok (g\<lparr>ds := d2\<rparr>))))
       else ok (g\<lparr>ds := d1\<rparr>))))"

declare genie_walk.simps [code]

text \<open>The Genie branch up to the choice of the edge: it returns the end points \<open>i1\<close>,
  \<open>i2\<close> of the chosen edge and the new \<open>lastm\<close>.\<close>

definition genie_branch :: "'a CGenie \<Rightarrow> int \<Rightarrow> ('a CGenie \<times> int \<times> int \<times> int) res" where
  "genie_branch g lastm =
     (let m = int (get_smallest_count (ds g));
          g0 = (if m \<noteq> lastm \<or> lastidx g < curidx g then g\<lparr>lastidx := curidx g\<rparr> else g)
      in
        bindR (genie_walk g0 m) (\<lambda>g1.
        bindR (rd (mst_i g1) (2 * lastidx g1 + 0)) (\<lambda>i1.
        bindR (rd (mst_i g1) (2 * lastidx g1 + 1)) (\<lambda>i2.
        bindR (if lastidx g1 = curidx g1 then
                 bindR (rd (next_edge g1) (curidx g1)) (\<lambda>c.
                 ok (g1\<lparr>curidx := c, lastidx := c\<rparr>))
               else
                 bindR (rd (prev_edge g1) (lastidx g1)) (\<lambda>previdx.
                 bindR (rd (next_edge g1) (lastidx g1)) (\<lambda>l.
                 bindR (wr (next_edge g1) previdx l) (\<lambda>ne.
                 bindR (wr (prev_edge g1) l previdx) (\<lambda>pe.
                 ok (g1\<lparr>lastidx := l, next_edge := ne, prev_edge := pe\<rparr>)))))) (\<lambda>g2.
        ok (g2, i1, i2, m))))))"

definition single_branch :: "'a CGenie \<Rightarrow> int \<Rightarrow> ('a CGenie \<times> int \<times> int \<times> int) res" where
  "single_branch g lastm =
     bindR (rd (mst_i g) (2 * curidx g + 0)) (\<lambda>i1.
     bindR (rd (mst_i g) (2 * curidx g + 1)) (\<lambda>i2.
     bindR (rd (next_edge g) (curidx g)) (\<lambda>c.
     ok (g\<lparr>curidx := c\<rparr>, i1, i2, lastm))))"

definition genie_merge :: "'a CGenie \<Rightarrow> int \<Rightarrow> int \<Rightarrow> 'a CGenie res" where
  "genie_merge g i1 i2 =
     bindR (rd (denoise_index_rev g) i1) (\<lambda>x.
     bindR (rd (denoise_index_rev g) i2) (\<lambda>y.
     bindR (CGiniDisjointSets_merge (ds g) (to_ull x) (to_ull y)) (\<lambda>(d, r).
     ok (g\<lparr>ds := d\<rparr>))))"

definition genie_iter :: "rat \<Rightarrow> int \<Rightarrow> 'a CGenie \<times> int \<Rightarrow> ('a CGenie \<times> int) res" where
  "genie_iter gini_threshold i s =
     (case s of (g, lastm) \<Rightarrow>
        bindR (if get_gini (ds g) > gini_threshold then genie_branch g lastm
               else single_branch g lastm) (\<lambda>(g1, i1, i2, lastm1).
        bindR (genie_merge g1 i1 i2) (\<lambda>g2.
        ok (g2, lastm1))))"

definition do_genie :: "'a CGenie \<Rightarrow> int \<Rightarrow> rat \<Rightarrow> 'a CGenie res" where
  "do_genie g n_clusters gini_threshold =
     (if cg_n g - noise_count g - n_clusters \<le> 0 then throw RuntimeError
      else
        bindR (forM [0..cg_n g - noise_count g - n_clusters - 1] (genie_iter gini_threshold)
                 (g\<lparr>ds := CGiniDisjointSets_new (nat (cg_n g - noise_count g))\<rparr>, 0)) (\<lambda>(g1, lastm).
        ok g1))"

subsubsection \<open>\<open>get_labels\<close>\<close>

text \<open>The counter \<open>c\<close>, the entries of \<open>res_cluster_id\<close> and the entries of the output
  \<open>res\<close> are C++ \<open>int\<close>s: \<open>++c\<close> is an \<open>int\<close> increment, and everything stored in the two
  arrays is \<open>-1\<close> or a value of \<open>c\<close>.  Every entry of \<open>res\<close> is written, so what the
  caller's buffer held before does not matter.\<close>

definition labels_body ::
  "int \<Rightarrow> 'a CGenie \<times> int list \<times> int \<times> int list \<Rightarrow> ('a CGenie \<times> int list \<times> int \<times> int list) res" where
  "labels_body i s =
     (case s of (g, res_cluster_id, c, res) \<Rightarrow>
        bindR (rd (denoise_index_rev g) i) (\<lambda>r.
          if r \<ge> 0 then
            bindR (DisjointSets_find (ds g) (to_ull r)) (\<lambda>(d, root).
            bindR (rd (denoise_index g) (int root)) (\<lambda>j.
            bindR (rd res_cluster_id j) (\<lambda>old.
            bindR (if old < 0 then
                     bindR (wr res_cluster_id j c) (\<lambda>rci. ok (rci, wrap_int (c + 1)))
                   else ok (res_cluster_id, c)) (\<lambda>(rci, c1).
            bindR (rd rci j) (\<lambda>lab.
            bindR (wr res i lab) (\<lambda>res1.
            ok (g\<lparr>ds := d\<rparr>, rci, c1, res1)))))))
          else
            bindR (wr res i (- 1)) (\<lambda>res1.
            ok (g, res_cluster_id, c, res1))))"

definition get_labels :: "'a CGenie \<Rightarrow> int list \<Rightarrow> ('a CGenie \<times> int list) res" where
  "get_labels g res =
     bindR (forM [0..cg_n g - 1] labels_body (g, replicate (nat (cg_n g)) (- 1), 0, res))
       (\<lambda>(g1, res_cluster_id, c, res1). ok (g1, res1))"

subsubsection \<open>The constructor\<close>

definition check_sorted :: "('a::linorder) list \<Rightarrow> int \<Rightarrow> unit res" where
  "check_sorted d n =
     forM [1..n - 1 - 1] (\<lambda>i u.
       bindR (rd d (i - 1)) (\<lambda>a.
       bindR (rd d i) (\<lambda>b.
       if a > b then throw DomainError else ok u))) ()"

definition denoise_leaf_body :: "int \<Rightarrow> 'a CGenie \<times> int \<Rightarrow> ('a CGenie \<times> int) res" where
  "denoise_leaf_body i s =
     (case s of (g, j) \<Rightarrow>
        bindR (rd (deg g) i) (\<lambda>dg.
          if dg = 1 then
            bindR (wr (denoise_index_rev g) i (- 1)) (\<lambda>rev.
            ok (g\<lparr>noise_count := noise_count g + 1, denoise_index_rev := rev\<rparr>, j))
          else
            bindR (wr (denoise_index g) j i) (\<lambda>idx.
            bindR (wr (denoise_index_rev g) i j) (\<lambda>rev.
            ok (g\<lparr>denoise_index := idx, denoise_index_rev := rev\<rparr>, j + 1)))))"

definition denoise_identity_body :: "int \<Rightarrow> 'a CGenie \<Rightarrow> 'a CGenie res" where
  "denoise_identity_body i g =
     bindR (wr (denoise_index g) i i) (\<lambda>idx.
     bindR (wr (denoise_index_rev g) i i) (\<lambda>rev.
     ok (g\<lparr>denoise_index := idx, denoise_index_rev := rev\<rparr>)))"

text \<open>The member initialisers build five vectors of \<open>n\<close> zeros (a negative \<open>n\<close> is
  refused by \<open>std::vector\<close>) and a default \<open>CGiniDisjointSets\<close>.  The constructor leaves
  \<open>curidx\<close> and \<open>lastidx\<close> uninitialised; \<open>skiplist_init\<close> assigns both before any
  use, and the model starts them at 0.\<close>

definition CGenie_new :: "('a::linorder) list \<Rightarrow> int list \<Rightarrow> int \<Rightarrow> bool \<Rightarrow> 'a CGenie res" where
  "CGenie_new d e n nl =
     (if n < 0 then throw LengthError
      else
        let z = replicate (nat n) (0::int);
            g = \<lparr>mst_d = d, mst_i = e, cg_n = n, noise_leaves = nl, deg = z,
                 noise_count = 0, denoise_index = z, denoise_index_rev = z,
                 next_edge = z, prev_edge = z, curidx = 0, lastidx = 0,
                 ds = CGiniDisjointSets_new 0\<rparr>
        in
          bindR (check_sorted d n) (\<lambda>u.
          bindR (Cget_graph_node_degrees e (n - 1) n (deg g)) (\<lambda>dg.
            if nl then
              bindR (forM [0..n - 1] denoise_leaf_body (g\<lparr>deg := dg, noise_count := 0\<rparr>, 0)) (\<lambda>(g1, j).
                if \<not> (noise_count g1 \<ge> 2) then throw RuntimeError
                else if \<not> (j + noise_count g1 = n) then throw RuntimeError
                else ok g1)
            else
              forM [0..n - 1] denoise_identity_body (g\<lparr>deg := dg, noise_count := 0\<rparr>))))"

subsubsection \<open>\<open>apply_genie\<close>\<close>

definition apply_genie :: "'a CGenie \<Rightarrow> int \<Rightarrow> rat \<Rightarrow> int list \<Rightarrow> ('a CGenie \<times> int list) res" where
  "apply_genie g n_clusters gini_threshold res =
     bindR (skiplist_init g) (\<lambda>g1.
     bindR (do_genie g1 n_clusters gini_threshold) (\<lambda>g2.
     get_labels g2 res))"

text \<open>What a caller does: construct the engine, run \<open>apply_genie\<close> on a buffer \<open>res\<close> of
  length \<open>n\<close>, and read the labels.\<close>

definition genie_labels ::
  "('a::linorder) list \<Rightarrow> int list \<Rightarrow> int \<Rightarrow> bool \<Rightarrow> int \<Rightarrow> rat \<Rightarrow> int list \<Rightarrow> int list res" where
  "genie_labels d e n nl n_clusters gini_threshold res =
     bindR (CGenie_new d e n nl) (\<lambda>g.
     bindR (apply_genie g n_clusters gini_threshold res) (\<lambda>(g1, res1).
     ok res1))"


section \<open>Notions used in the statements\<close>

subsection \<open>Edges of a flat index array\<close>

text \<open>Edge \<open>i\<close> of the array \<open>ind\<close> has the end points \<open>ind[2 i]\<close> and \<open>ind[2 i + 1]\<close>.
  It is accepted when neither is negative, and rejected (with a domain error) when it is
  accepted and has an end point outside \<open>{0, \<dots>, n - 1}\<close> or is a self-loop.\<close>

definition edge_u :: "int list \<Rightarrow> nat \<Rightarrow> int" where
  "edge_u ind i = ind ! (2 * i)"

definition edge_v :: "int list \<Rightarrow> nat \<Rightarrow> int" where
  "edge_v ind i = ind ! (2 * i + 1)"

definition accepted :: "int list \<Rightarrow> nat \<Rightarrow> bool" where
  "accepted ind i \<longleftrightarrow> 0 \<le> edge_u ind i \<and> 0 \<le> edge_v ind i"

definition rejected :: "int list \<Rightarrow> int \<Rightarrow> nat \<Rightarrow> bool" where
  "rejected ind n i \<longleftrightarrow>
     accepted ind i \<and> (edge_u ind i \<ge> n \<or> edge_v ind i \<ge> n \<or> edge_u ind i = edge_v ind i)"

definition incident_count :: "int list \<Rightarrow> nat \<Rightarrow> int \<Rightarrow> nat" where
  "incident_count ind m v =
     length (filter (\<lambda>i. accepted ind i \<and> (edge_u ind i = v \<or> edge_v ind i = v)) [0..<m])"


subsection \<open>What the constructor builds\<close>

text \<open>The number of leaves (vertices of degree 1) and of other vertices among the first
  \<open>k\<close> vertices.\<close>

definition leaf_count :: "int list \<Rightarrow> nat \<Rightarrow> nat" where
  "leaf_count dg k = length (filter (\<lambda>v. dg ! v = 1) [0..<k])"

definition inner_count :: "int list \<Rightarrow> nat \<Rightarrow> nat" where
  "inner_count dg k = length (filter (\<lambda>v. dg ! v \<noteq> 1) [0..<k])"

text \<open>The engine after the member initialisers, with the degrees \<open>dg\<close>.\<close>

definition engine0 :: "'a list \<Rightarrow> int list \<Rightarrow> int \<Rightarrow> bool \<Rightarrow> int list \<Rightarrow> 'a CGenie" where
  "engine0 d e n nl dg =
     \<lparr>mst_d = d, mst_i = e, cg_n = n, noise_leaves = nl, deg = dg,
      noise_count = 0, denoise_index = replicate (nat n) 0, denoise_index_rev = replicate (nat n) 0,
      next_edge = replicate (nat n) 0, prev_edge = replicate (nat n) 0, curidx = 0, lastidx = 0,
      ds = CGiniDisjointSets_new 0\<rparr>"

text \<open>The engine the constructor returns without noise points: both tables are the
  identity.\<close>

definition plain_engine :: "'a list \<Rightarrow> int list \<Rightarrow> int \<Rightarrow> int list \<Rightarrow> 'a CGenie" where
  "plain_engine d e n dg =
     (engine0 d e n False dg)
       \<lparr>denoise_index := map int [0..<nat n], denoise_index_rev := map int [0..<nat n]\<rparr>"

text \<open>The engine the constructor returns with leaves as noise points: \<open>denoise_index\<close>
  lists the vertices that are not leaves, in ascending order (the remaining entries keep
  their initial 0), and \<open>denoise_index_rev\<close> maps a leaf to \<open>-1\<close> and any other vertex to its
  position in that list.\<close>

definition noise_engine :: "'a list \<Rightarrow> int list \<Rightarrow> int \<Rightarrow> int list \<Rightarrow> 'a CGenie" where
  "noise_engine d e n dg =
     (engine0 d e n True dg)
       \<lparr>noise_count := int (leaf_count dg (nat n)),
        denoise_index := map int (filter (\<lambda>v. dg ! v \<noteq> 1) [0..<nat n])
                           @ replicate (leaf_count dg (nat n)) 0,
        denoise_index_rev := map (\<lambda>v. if dg ! v = 1 then - 1 else int (inner_count dg v)) [0..<nat n]\<rparr>"

text \<open>The weights are unsorted when some weight is greater than its successor.\<close>

definition unsorted :: "('a::linorder) list \<Rightarrow> bool" where
  "unsorted d \<longleftrightarrow> (\<exists>i. Suc i < length d \<and> d ! i > d ! Suc i)"

text \<open>The state of the leaf-marking loop after \<open>k\<close> vertices.\<close>

definition leaf_state :: "'a list \<Rightarrow> int list \<Rightarrow> int \<Rightarrow> int list \<Rightarrow> nat \<Rightarrow> 'a CGenie \<times> int" where
  "leaf_state d e n dg k = ((engine0 d e n True dg)
       \<lparr>noise_count := int (leaf_count dg k),
        denoise_index := map int (filter (\<lambda>v. dg ! v \<noteq> 1) [0..<k]) @ replicate (nat n - inner_count dg k) 0,
        denoise_index_rev := map (\<lambda>v. if dg ! v = 1 then - 1 else int (inner_count dg v)) [0..<k] 
            @ replicate (nat n - k) 0\<rparr>, int (inner_count dg k))"

text \<open>In leaves-as-noise mode \<open>skiplist_init\<close> links edge \<open>i\<close> when both end points have
  degree greater than 1.\<close>

definition inner_edge :: "'a CGenie \<Rightarrow> int \<Rightarrow> bool" where
  "inner_edge g i \<longleftrightarrow>
     bindR (rd (mst_i g) (2 * i + 0)) (\<lambda>i1.
     bindR (rd (mst_i g) (2 * i + 1)) (\<lambda>i2.
     bindR (rd (deg g) i1) (\<lambda>d1.
     bindR (rd (deg g) i2) (\<lambda>d2.
     ok (d1 > 1 \<and> d2 > 1))))) = ok True"


subsection \<open>The star with centre 0 and four leaves\<close>

text \<open>The engine that the constructor returns for the star with the edges \<open>(0, 1)\<close>,
  \<open>(0, 2)\<close>, \<open>(0, 3)\<close>, \<open>(0, 4)\<close>, all of weight 1, with leaves as noise points.\<close>

definition star_engine :: "int CGenie" where
  "star_engine = noise_engine [1, 1, 1, 1] [0, 1, 0, 2, 0, 3, 0, 4] 5 [4, 1, 1, 1, 1]"


subsection \<open>Roots and paths in a parent array\<close>

text \<open>The invariant of the class: \<open>par\<close> has \<open>n\<close> entries and no element has a parent
  greater than itself.\<close>

definition par_inv :: "nat list \<Rightarrow> bool" where
  "par_inv p \<longleftrightarrow> (\<forall>i<length p. p ! i \<le> i)"

definition ds_inv :: "'a DisjointSets_scheme \<Rightarrow> bool" where
  "ds_inv d \<longleftrightarrow> length (par d) = ds_n d \<and> par_inv (par d)"

text \<open>The root reached from \<open>x\<close> by following parents downwards, and the nodes on the
  way, \<open>x\<close> first and the root last.\<close>

function rep_of :: "nat list \<Rightarrow> nat \<Rightarrow> nat" where
  "rep_of p x = (if x < length p \<and> p ! x < x then rep_of p (p ! x) else x)"
  by pat_completeness auto
termination
  by (relation "measure snd") auto

function path_of :: "nat list \<Rightarrow> nat \<Rightarrow> nat list" where
  "path_of p x = (if x < length p \<and> p ! x < x then x # path_of p (p ! x) else [x])"
  by pat_completeness auto
termination
  by (relation "measure snd") auto

text \<open>The parent array after path compression from \<open>x\<close>.\<close>

definition compress :: "nat list \<Rightarrow> nat \<Rightarrow> nat list" where
  "compress p x = map (\<lambda>y. if y \<in> set (path_of p x) then rep_of p x else p ! y) [0..<length p]"

text \<open>The parent array after the union of the sets of \<open>x\<close> and \<open>y\<close>: both paths are
  compressed and the greater root gets the smaller one as its parent.\<close>

definition union_par :: "nat list \<Rightarrow> nat \<Rightarrow> nat \<Rightarrow> nat list" where
  "union_par p x y =
     (compress (compress p x) y)[max (rep_of p x) (rep_of p y) := min (rep_of p x) (rep_of p y)]"

subsection \<open>Sequences of calls on a \<open>DisjointSets\<close> object\<close>

text \<open>A call of \<open>find\<close> or \<open>merge\<close>, and the object it leaves behind, also when it throws:
  \<open>find\<close> throws before it writes, and \<open>merge\<close> throws after one or both of its calls of
  \<open>find\<close> have returned.  \<open>None\<close> stands for a call that does not return.\<close>

datatype ds_op = Find nat | Merge nat nat

fun state_after :: "DisjointSets \<Rightarrow> ds_op \<Rightarrow> DisjointSets option" where
  "state_after d (Find x) =
     (case DisjointSets_find d x of
        None \<Rightarrow> None
      | Some (Inl e) \<Rightarrow> Some d
      | Some (Inr (d1, r)) \<Rightarrow> Some d1)"
| "state_after d (Merge x y) =
     (case DisjointSets_find d x of
        None \<Rightarrow> None
      | Some (Inl e) \<Rightarrow> Some d
      | Some (Inr (d1, x1)) \<Rightarrow>
          (case DisjointSets_find d1 y of
             None \<Rightarrow> None
           | Some (Inl e) \<Rightarrow> Some d1
           | Some (Inr (d2, y1)) \<Rightarrow>
               (case DisjointSets_merge d x y of
                  Some (Inr (d3, r)) \<Rightarrow> Some d3
                | _ \<Rightarrow> Some d2)))"

fun ds_run :: "DisjointSets \<Rightarrow> ds_op list \<Rightarrow> DisjointSets option" where
  "ds_run d [] = Some d"
| "ds_run d (c # cs) = (case state_after d c of None \<Rightarrow> None | Some d1 \<Rightarrow> ds_run d1 cs)"


subsection \<open>Sets and their sizes\<close>

text \<open>The set that contains \<open>x\<close>: the elements with the same root.\<close>

definition class_of :: "nat list \<Rightarrow> nat \<Rightarrow> nat set" where
  "class_of p x = {z. z < length p \<and> rep_of p z = rep_of p x}"

text \<open>The invariant of \<open>CGiniDisjointSets\<close>: that of the union-find, and \<open>cnt[r]\<close> is the
  size of the set of every root \<open>r\<close>.\<close>

definition gds_inv :: "CGiniDisjointSets \<Rightarrow> bool" where
  "gds_inv d \<longleftrightarrow>
     ds_inv d \<and> length (cnt d) = ds_n d \<and>
     (\<forall>r<ds_n d. par d ! r = r \<longrightarrow> cnt d ! r = card (class_of (par d) r))"

text \<open>Two states with the same sets: only paths have been compressed in between.\<close>

definition same_sets :: "CGiniDisjointSets \<Rightarrow> CGiniDisjointSets \<Rightarrow> bool" where
  "same_sets d d' \<longleftrightarrow>
     gds_inv d' \<and> ds_n d' = ds_n d \<and> ds_k d' = ds_k d \<and> cnt d' = cnt d \<and>
     (\<forall>z. rep_of (par d') z = rep_of (par d) z)"

text \<open>The walk of the Genie branch, when it returns an engine: the sets are unchanged, only
  \<open>lastidx\<close> and the compressed paths differ, and an end point of the edge at the final
  \<open>lastidx\<close> lies in a set of size \<open>m\<close>.\<close>

definition walk_post :: "'a CGenie \<Rightarrow> int \<Rightarrow> 'a CGenie \<Rightarrow> bool" where
  "walk_post g m g1 \<longleftrightarrow>
     same_sets (ds g) (ds g1) \<and> g1 = g\<lparr>ds := ds g1, lastidx := lastidx g1\<rparr> \<and>
     (\<exists>e re. (rd (mst_i g) (2 * lastidx g1 + 0) = ok e \<or> rd (mst_i g) (2 * lastidx g1 + 1) = ok e) \<and>
        rd (denoise_index_rev g) e = ok re \<and> to_ull re < ds_n (ds g) \<and>
        int (cnt (ds g) ! rep_of (par (ds g)) (to_ull re)) = m)"

subsection \<open>The path with five vertices\<close>

text \<open>The engine for the path \<open>0 - 1 - 2 - 3 - 4\<close> with the weights \<open>1, 2, 3, 4\<close>, without
  noise points, as \<open>skiplist_init\<close> leaves it.\<close>

definition path_engine :: "int CGenie" where
  "path_engine =
     (plain_engine [1, 2, 3, 4] [0, 1, 1, 2, 2, 3, 3, 4] 5 [1, 2, 2, 2, 1])
       \<lparr>next_edge := [1, 2, 3, 4, 0], prev_edge := [- 1, 0, 1, 2, 0]\<rparr>"


subsection \<open>Single linkage\<close>

text \<open>The first \<open>m\<close> edges of the flat array \<open>e\<close> as pairs of vertices, and the relation
  ``connected by a path of edges of \<open>E\<close>''.\<close>

definition edges_of :: "int list \<Rightarrow> nat \<Rightarrow> (nat \<times> nat) list" where
  "edges_of e m = map (\<lambda>i. (nat (e ! (2 * i)), nat (e ! (2 * i + 1)))) [0..<m]"

definition conn :: "(nat \<times> nat) list \<Rightarrow> (nat \<times> nat) set" where
  "conn E = (set E \<union> (set E)\<inverse>)\<^sup>*"

text \<open>The number of roots below \<open>r\<close>: the label that \<open>get_labels\<close> gives to the set with
  root \<open>r\<close>.\<close>

definition rank_of :: "nat list \<Rightarrow> nat \<Rightarrow> nat" where
  "rank_of p r = length (filter (\<lambda>x. rep_of p x = x) [0..<r])"

text \<open>The engine without noise points after \<open>skiplist_init\<close>: edge \<open>i\<close> is linked to
  \<open>i + 1\<close> and \<open>i - 1\<close>; the last entry of both arrays is never written.\<close>

definition linked_engine :: "'a list \<Rightarrow> int list \<Rightarrow> int \<Rightarrow> int list \<Rightarrow> 'a CGenie" where
  "linked_engine d e n dg =
     (plain_engine d e n dg)
       \<lparr>next_edge := map (\<lambda>i. int i + 1) [0..<nat (n - 1)] @ replicate (nat n - nat (n - 1)) 0,
        prev_edge := map (\<lambda>i. int i - 1) [0..<nat (n - 1)] @ replicate (nat n - nat (n - 1)) 0\<rparr>"

text \<open>The state of the loop of \<open>do_genie\<close> after \<open>j\<close> single-linkage steps on the engine
  \<open>g\<close>: the first \<open>j\<close> edges are consumed, \<open>n - j\<close> sets are left and two vertices are in
  the same set iff the first \<open>j\<close> edges connect them.\<close>

definition sl_state :: "'a CGenie \<Rightarrow> nat \<Rightarrow> 'a CGenie \<times> int \<Rightarrow> bool" where
  "sl_state g j s \<longleftrightarrow>
     (\<exists>D. s = (g\<lparr>curidx := int j, ds := D\<rparr>, 0) \<and> gds_inv D \<and> ds_n D = nat (cg_n g) \<and>
        rank_of (par D) (nat (cg_n g)) = nat (cg_n g) - j \<and>
        (\<forall>x<nat (cg_n g). \<forall>y<nat (cg_n g).
           rep_of (par D) x = rep_of (par D) y \<longleftrightarrow> (x, y) \<in> conn (edges_of (mst_i g) j)))"

text \<open>The state of the loop of \<open>get_labels\<close> after \<open>i\<close> vertices, on an engine \<open>g\<close> without
  noise points whose sets have the parent array \<open>p\<close> at the start: paths may have been
  compressed, the roots below \<open>i\<close> have their labels, \<open>c\<close> is the number of these roots and
  the first \<open>i\<close> entries of the output are written.\<close>

definition labels_state ::
  "'a CGenie \<Rightarrow> nat list \<Rightarrow> nat \<Rightarrow> 'a CGenie \<times> int list \<times> int \<times> int list \<Rightarrow> bool" where
  "labels_state g p i s \<longleftrightarrow>
     (\<exists>D rci res.
        s = (g\<lparr>ds := D\<rparr>, rci, int (rank_of p i), res) \<and>
        ds_inv D \<and> ds_n D = length p \<and> (\<forall>z. rep_of (par D) z = rep_of p z) \<and>
        length rci = length p \<and>
        (\<forall>r<length p. rci ! r = (if r < i \<and> rep_of p r = r then int (rank_of p r) else - 1)) \<and>
        length res = length p \<and>
        (\<forall>v<i. res ! v = int (rank_of p (rep_of p v))))"


subsection \<open>The skip-list as a list of edges\<close>

text \<open>The arrays \<open>next_edge\<close> and \<open>prev_edge\<close> and the cursor \<open>curidx\<close> represent the
  ascending list \<open>ch\<close> of the edges not yet consumed; \<open>S\<close> is the sentinel \<open>n - 1\<close>.\<close>

definition chain_inv :: "int list \<Rightarrow> int list \<Rightarrow> int \<Rightarrow> nat \<Rightarrow> nat list \<Rightarrow> bool" where
  "chain_inv ne pe cur S ch \<longleftrightarrow>
     length ne = Suc S \<and> length pe = Suc S \<and> sorted_wrt (<) ch \<and> (\<forall>c\<in>set ch. c < S) \<and>
     cur = int ((ch @ [S]) ! 0) \<and>
     (\<forall>i<length ch. ne ! (ch ! i) = int ((ch @ [S]) ! Suc i)) \<and>
     (\<forall>i<length ch. 0 < i \<longrightarrow> pe ! (ch ! i) = int (ch ! (i - 1)))"

text \<open>The two elements of the disjoint sets that edge \<open>c\<close> joins: its end points taken
  through \<open>denoise_index_rev\<close>.  The edge is usable when all the reads are in range.\<close>

definition ex_of :: "int list \<Rightarrow> int list \<Rightarrow> nat \<Rightarrow> nat" where
  "ex_of mi rv c = to_ull (rv ! nat (mi ! (2 * c)))"

definition ey_of :: "int list \<Rightarrow> int list \<Rightarrow> nat \<Rightarrow> nat" where
  "ey_of mi rv c = to_ull (rv ! nat (mi ! Suc (2 * c)))"

definition edge_ok :: "int list \<Rightarrow> int list \<Rightarrow> nat \<Rightarrow> nat \<Rightarrow> bool" where
  "edge_ok mi rv N c \<longleftrightarrow>
     Suc (2 * c) < length mi \<and>
     0 \<le> mi ! (2 * c) \<and> mi ! (2 * c) < int (length rv) \<and>
     0 \<le> mi ! Suc (2 * c) \<and> mi ! Suc (2 * c) < int (length rv) \<and>
     ex_of mi rv c < N \<and> ey_of mi rv c < N"

text \<open>Edge \<open>c\<close> touches a set of size \<open>m\<close>.\<close>

definition touches :: "int list \<Rightarrow> int list \<Rightarrow> CGiniDisjointSets \<Rightarrow> int \<Rightarrow> nat \<Rightarrow> bool" where
  "touches mi rv D m c \<longleftrightarrow>
     int (cnt D ! rep_of (par D) (ex_of mi rv c)) = m \<or>
     int (cnt D ! rep_of (par D) (ey_of mi rv c)) = m"

definition pair_of :: "int list \<Rightarrow> int list \<Rightarrow> nat \<Rightarrow> nat \<times> nat" where
  "pair_of mi rv c = (ex_of mi rv c, ey_of mi rv c)"

text \<open>The disjoint sets after \<open>merge(x, y)\<close> has joined two different sets.\<close>

definition merged :: "CGiniDisjointSets \<Rightarrow> nat \<Rightarrow> nat \<Rightarrow> CGiniDisjointSets" where
  "merged d x y =
     d\<lparr>par := union_par (par d) x y, ds_k := dec_ull (ds_k d),
       cnt := (cnt d)[min (rep_of (par d) x) (rep_of (par d) y) :=
                cnt d ! min (rep_of (par d) x) (rep_of (par d) y)
                + cnt d ! max (rep_of (par d) x) (rep_of (par d) y)]\<rparr>"

text \<open>The edges in the skip-list at the start form a tree on the \<open>N\<close> elements of the
  disjoint sets: every read is in range, the edges connect all elements, and every edge is a
  bridge.\<close>

definition tree_edges :: "int list \<Rightarrow> int list \<Rightarrow> nat \<Rightarrow> nat list \<Rightarrow> bool" where
  "tree_edges mi rv N ch0 \<longleftrightarrow>
     (\<forall>c\<in>set ch0. edge_ok mi rv N c) \<and>
     (\<forall>x<N. \<forall>y<N. (x, y) \<in> conn (map (pair_of mi rv) ch0)) \<and>
     (\<forall>c\<in>set ch0. pair_of mi rv c \<notin> conn (map (pair_of mi rv) (removeAll c ch0)))"

text \<open>The state of the loop of \<open>do_genie\<close> after \<open>j\<close> iterations on a tree: \<open>ch\<close> are the
  edges still in the skip-list and \<open>dn\<close> the edges consumed; two elements are in the same
  set iff the consumed edges connect them; \<open>lastm\<close> is at most the smallest size; and
  \<open>lastidx\<close> is either behind \<open>curidx\<close> or at a position \<open>t\<close> of the list such that, when
  the smallest size is still \<open>lastm\<close>, no edge before \<open>t\<close> touches a set of that size.\<close>

definition drv_inv ::
  "int list \<Rightarrow> int list \<Rightarrow> nat \<Rightarrow> nat \<Rightarrow> nat list \<Rightarrow> nat \<Rightarrow> 'a CGenie \<times> int \<Rightarrow> bool" where
  "drv_inv mi rv N S ch0 j s \<longleftrightarrow>
     (\<exists>g lastm ch dn. s = (g, lastm) \<and> mst_i g = mi \<and> denoise_index_rev g = rv \<and>
        gds_inv (ds g) \<and> ds_n (ds g) = N \<and> rank_of (par (ds g)) N = N - j \<and>
        lastm \<le> int (get_smallest_count (ds g)) \<and>
        chain_inv (next_edge g) (prev_edge g) (curidx g) S ch \<and>
        set ch \<union> set dn = set ch0 \<and> set ch \<inter> set dn = {} \<and>
        (\<forall>x<N. \<forall>y<N. rep_of (par (ds g)) x = rep_of (par (ds g)) y
             \<longleftrightarrow> (x, y) \<in> conn (map (pair_of mi rv) dn)) \<and>
        (lastidx g < curidx g \<or>
         (\<exists>t\<le>length ch. lastidx g = int ((ch @ [S]) ! t) \<and>
            (int (get_smallest_count (ds g)) = lastm \<longrightarrow>
               (\<forall>i<t. \<not> touches mi rv (ds g) lastm (ch ! i))))))"

text \<open>An engine as \<open>skiplist_init\<close> leaves it for a tree: the skip-list holds the edges
  \<open>ch0\<close>, both cursors are at its head, and these edges form a tree on the \<open>N\<close> elements.\<close>

definition tree_engine :: "'a CGenie \<Rightarrow> nat \<Rightarrow> nat \<Rightarrow> nat list \<Rightarrow> bool" where
  "tree_engine g N S ch0 \<longleftrightarrow>
     chain_inv (next_edge g) (prev_edge g) (curidx g) S ch0 \<and> lastidx g = curidx g \<and>
     tree_edges (mst_i g) (denoise_index_rev g) N ch0"

text \<open>The first \<open>m\<close> edges of \<open>e\<close> without edge \<open>c\<close>; and a spanning tree on the vertices
  \<open>0, \<dots>, N - 1\<close>: its \<open>N - 1\<close> edges connect all vertices, and no edge can be left out.\<close>

definition edges_without :: "int list \<Rightarrow> nat \<Rightarrow> nat \<Rightarrow> (nat \<times> nat) list" where
  "edges_without e m c =
     map (\<lambda>i. (nat (e ! (2 * i)), nat (e ! (2 * i + 1)))) (removeAll c [0..<m])"

definition spanning_tree :: "int list \<Rightarrow> nat \<Rightarrow> bool" where
  "spanning_tree e N \<longleftrightarrow>
     (\<forall>x<N. \<forall>y<N. (x, y) \<in> conn (edges_of e (N - 1))) \<and>
     (\<forall>c<N - 1. edges_of e (N - 1) ! c \<notin> conn (edges_without e (N - 1) c))"


section \<open>Basic facts\<close>

subsection \<open>The result monad\<close>

lemma bindR_ok [simp]: "bindR (ok x) f = f x"
  by (simp add: bindR_def ok_def)

lemma bindR_throw [simp]: "bindR (throw e) f = throw e"
  by (simp add: bindR_def throw_def)

lemma bindR_None [simp]: "bindR None f = None"
  by (simp add: bindR_def)

lemma ok_neq_throw [simp]: "ok x \<noteq> throw e" "throw e \<noteq> ok x"
  by (simp_all add: ok_def throw_def)

lemma ok_neq_None [simp]: "ok x \<noteq> None" "None \<noteq> ok x" "throw e \<noteq> None" "None \<noteq> throw e"
  by (simp_all add: ok_def throw_def)

lemma ok_inject [simp]: "ok x = ok y \<longleftrightarrow> x = y"
  by (simp add: ok_def)

lemma throw_inject [simp]: "throw e = throw e' \<longleftrightarrow> e = e'"
  by (simp add: throw_def)

lemma res_cases: 
  obtains (none) "m = None" | (err) e where "m = throw e" | (val) x where "m = ok x"
  by (cases m; simp add: ok_def throw_def) (metis sum.exhaust_sel)

lemma bindR_eq_ok: "bindR m f = ok y \<longleftrightarrow> (\<exists>x. m = ok x \<and> f x = ok y)"
  by (cases m rule: res_cases) auto

lemma bindR_assoc: "bindR (bindR m f) h = bindR m (\<lambda>x. bindR (f x) h)"
  by (cases m rule: res_cases) auto

lemma rd_ok: "0 \<le> i \<Longrightarrow> i < int (length xs) \<Longrightarrow> rd xs i = ok (xs ! nat i)"
  by (simp add: rd_def)

lemma wr_ok: "0 \<le> i \<Longrightarrow> i < int (length xs) \<Longrightarrow> wr xs i v = ok (xs[nat i := v])"
  by (simp add: wr_def)

lemma rd_oob: "i < 0 \<or> int (length xs) \<le> i \<Longrightarrow> rd xs i = throw OutOfBounds"
  by (auto simp add: rd_def)

lemma wr_oob: "i < 0 \<or> int (length xs) \<le> i \<Longrightarrow> wr xs i v = throw OutOfBounds"
  by (auto simp add: wr_def)

subsection \<open>Counted loops\<close>

lemma forM_append: "forM (xs @ ys) body s = bindR (forM xs body s) (forM ys body)"
proof (induction xs arbitrary: s)
  case Nil
  show ?case by simp
next
  case (Cons i xs)
  show ?case by (cases "body i s" rule: res_cases) (simp_all add: Cons)
qed

lemma forM_single: "forM [i] body s = body i s"
  by (cases "body i s" rule: res_cases) simp_all

lemma forM_snoc:
  "forM [a..a + int m] body s = bindR (forM [a..a + int m - 1] body s) (body (a + int m))"
proof -
  have "[a..a + int m] = [a..a + int m - 1] @ [a + int m]"
    using upto_rec2 [of a "a + int m"] by simp
  moreover have "forM [a + int m] body = body (a + int m)"
    by (rule ext) (rule forM_single)
  ultimately show ?thesis by (simp add: forM_append)
qed

lemma forM_empty: "forM [a..a + int 0 - 1] body s = ok s"
  by simp

lemma forM_total:
  assumes "P 0 s0"
    and "\<And>k s. k < m \<Longrightarrow> P k s \<Longrightarrow> \<exists>s'. body (a + int k) s = ok s' \<and> P (Suc k) s'"
  shows "\<exists>s'. forM [a..a + int m - 1] body s0 = ok s' \<and> P m s'"
  using assms(2)
proof (induction m)
  case 0
  show ?case using assms(1) by simp
next
  case (Suc m)
  then obtain s1 where 1: "forM [a..a + int m - 1] body s0 = ok s1" "P m s1"
    by (metis less_Suc_eq)
  from Suc.prems [OF _ 1(2)] obtain s2 where "body (a + int m) s1 = ok s2" "P (Suc m) s2"
    by blast
  then show ?case using 1 by (simp add: forM_snoc)
qed

lemma forM_partial:
  assumes "forM is body s0 = ok s'" and "P s0"
    and "\<And>i s t. body i s = ok t \<Longrightarrow> P s \<Longrightarrow> P t"
  shows "P s'"
  using assms(1,2)
proof (induction "is" arbitrary: s0)
  case Nil
  then show ?case by simp
next
  case (Cons i "is")
  then show ?case using assms(3) by (auto simp: bindR_eq_ok)
qed

lemma forM_no_None:
  assumes "\<And>i s. body i s \<noteq> None"
  shows "forM is body s \<noteq> None"
proof (induction "is" arbitrary: s)
  case Nil
  then show ?case by simp
next
  case (Cons i "is")
  show ?case using assms [of i s] Cons by (cases "body i s" rule: res_cases) auto
qed


section \<open>Scenario: the path graph with the Genie correction active\<close>

text \<open>
  C1 (as stated in the specification): on the path \<open>0 - 1 - 2 - 3 - 4\<close> with weights
  \<open>1, 2, 3, 4\<close>, two clusters and threshold 0, the labels are \<open>[0, 0, 0, 1, 1]\<close>.
  The code does not produce them.
\<close>

theorem C1_path_genie_counterexample:
  "genie_labels [1, 2, 3, 4 :: int] [0, 1, 1, 2, 2, 3, 3, 4] 5 False 2 0 [0, 0, 0, 0, 0]
     \<noteq> ok [0, 0, 0, 1, 1]"
  by code_simp

text \<open>
  C1 (amended): on that input the labels are \<open>[0, 0, 0, 0, 1]\<close>, whatever the buffer held
  before.  After the first merge \<open>{0, 1}\<close> the Gini index is positive, the smallest size is 1,
  and the first remaining edge with an end point in a set of size 1 is \<open>(1, 2)\<close>, then
  \<open>(2, 3)\<close>, because \<open>{2}\<close> and then \<open>{3}\<close> are singletons: the final sizes are 4 and 1.
\<close>

theorem C1_path_genie_labels:
  "genie_labels [1, 2, 3, 4 :: int] [0, 1, 1, 2, 2, 3, 3, 4] 5 False 2 0 [a, b, c, d, e]
     = ok [0, 0, 0, 0, 1]"
  by code_simp

section \<open>The degree computer\<close>

lemma upto_nat_form: "[0..n - 1] = [0..0 + int (nat n) - 1]"
  by (cases "0 \<le> n") simp_all

lemma zero_loop:
  assumes "length deg0 = nat n"
  shows "forM [0..n - 1] (\<lambda>i dg. wr dg i (0::int)) deg0 = ok (replicate (nat n) (0::int))"
proof -
  let ?P = "\<lambda>k (s::int list). length s = nat n \<and> (\<forall>j<k. s ! j = 0)"
  have "\<exists>s'. forM [0..0 + int (nat n) - 1] (\<lambda>i dg. wr dg i (0::int)) deg0 = ok s' \<and> ?P (nat n) s'"
  proof (rule forM_total [where P = ?P])
    show "?P 0 deg0" using assms by simp
  next
    fix k s
    assume "k < nat n" "?P k s"
    then show "\<exists>s'. wr s (0 + int k) 0 = ok s' \<and> ?P (Suc k) s'"
      by (auto simp: wr_def nth_list_update less_Suc_eq)
  qed
  then obtain s' where 1: "forM [0..n - 1] (\<lambda>i dg. wr dg i (0::int)) deg0 = ok s'"
    and 2: "length s' = nat n" "\<forall>j<nat n. s' ! j = 0"
    unfolding upto_nat_form [symmetric] by blast
  have "s' = replicate (nat n) 0"
    using 2 by (intro nth_equalityI) simp_all
  then show ?thesis using 1 by simp
qed

lemma incident_count_Suc:
  "incident_count ind (Suc j) v =
     incident_count ind j v + (if accepted ind j \<and> (edge_u ind j = v \<or> edge_v ind j = v) then 1 else 0)"
  by (simp add: incident_count_def)

lemma degrees_body_eq:
  assumes "length ind = 2 * m" "j < m" "length dg = nat n"
  shows "degrees_body ind n (int j) dg =
     (if \<not> accepted ind j then ok dg
      else if rejected ind n j then throw DomainError
      else ok (dg[nat (edge_u ind j) := dg ! nat (edge_u ind j) + 1,
                   nat (edge_v ind j) := dg ! nat (edge_v ind j) + 1]))"
proof -
  have 1: "rd ind (2 * int j + 0) = ok (edge_u ind j)" "rd ind (2 * int j + 1) = ok (edge_v ind j)"
    using assms(1,2) by (simp_all add: rd_def edge_u_def edge_v_def nat_add_distrib nat_mult_distrib)
  have 2: "int (length dg) = max 0 n"
    using assms(3) by simp
  show ?thesis
    unfolding degrees_body_def 1
    by (auto simp: accepted_def rejected_def rd_def wr_def 2)
qed

lemma degrees_loop:
  assumes "length ind = 2 * m" "j \<le> m"
  shows "forM [0..0 + int j - 1] (degrees_body ind n) (replicate (nat n) 0) =
     (if \<exists>i<j. rejected ind n i then throw DomainError
      else ok (map (\<lambda>v. int (incident_count ind j (int v))) [0..<nat n]))"
  using assms(2)
proof (induction j)
  case 0
  have "map (\<lambda>v. int (incident_count ind 0 (int v))) [0..<nat n] = replicate (nat n) 0"
    by (intro nth_equalityI) (simp_all add: incident_count_def)
  then show ?case by simp
next
  case (Suc j)
  let ?d = "map (\<lambda>v. int (incident_count ind j (int v))) [0..<nat n]"
  have IH: "forM [0..0 + int j - 1] (degrees_body ind n) (replicate (nat n) 0) =
     (if \<exists>i<j. rejected ind n i then throw DomainError else ok ?d)"
    using Suc by simp
  have step: "forM [0..0 + int (Suc j) - 1] (degrees_body ind n) (replicate (nat n) 0) =
     bindR (forM [0..0 + int j - 1] (degrees_body ind n) (replicate (nat n) 0)) (degrees_body ind n (0 + int j))"
    using forM_snoc [of 0 j] by simp
  show ?case
  proof (cases "\<exists>i<j. rejected ind n i")
    case True
    then have "\<exists>i<Suc j. rejected ind n i" using less_Suc_eq by blast
    then show ?thesis using True step IH by simp
  next
    case False
    have body: "degrees_body ind n (int j) ?d =
     (if \<not> accepted ind j then ok ?d
      else if rejected ind n j then throw DomainError
      else ok (?d[nat (edge_u ind j) := ?d ! nat (edge_u ind j) + 1,
                   nat (edge_v ind j) := ?d ! nat (edge_v ind j) + 1]))"
      using Suc.prems assms(1) by (intro degrees_body_eq [where m = m]) simp_all
    have ex: "(\<exists>i<Suc j. rejected ind n i) \<longleftrightarrow> rejected ind n j"
      using False less_Suc_eq by blast
    show ?thesis
    proof (cases "accepted ind j")
      case acc: False
      then have "\<not> rejected ind n j" by (simp add: rejected_def)
      moreover have "map (\<lambda>v. int (incident_count ind (Suc j) (int v))) [0..<nat n] = ?d"
        using acc by (simp add: incident_count_Suc)
      ultimately show ?thesis using False step IH body acc ex by simp
    next
      case acc: True
      show ?thesis
      proof (cases "rejected ind n j")
        case True
        then show ?thesis using False step IH body acc ex by simp
      next
        case rej: False
        then have uv: "0 \<le> edge_u ind j" "edge_u ind j < n" "0 \<le> edge_v ind j" "edge_v ind j < n"
          "edge_u ind j \<noteq> edge_v ind j"
          using acc by (auto simp: rejected_def accepted_def)
        have "?d[nat (edge_u ind j) := ?d ! nat (edge_u ind j) + 1,
                   nat (edge_v ind j) := ?d ! nat (edge_v ind j) + 1] =
              map (\<lambda>v. int (incident_count ind (Suc j) (int v))) [0..<nat n]"
          using uv acc by (intro nth_equalityI) (auto simp: nth_list_update incident_count_Suc)
        then show ?thesis using False step IH body acc ex rej by simp
      qed
    qed
  qed
qed

text \<open>
  C7: given an array of \<open>m\<close> edges and the number \<open>n\<close> of vertices,
  \<open>Cget_graph_node_degrees\<close> skips every edge with a negative end point, raises a domain
  error if an edge that is not skipped has an end point \<open>\<ge> n\<close> or two equal end points,
  and otherwise returns the array of length \<open>n\<close> in which \<open>deg[v]\<close> is the number of
  accepted edges incident to \<open>v\<close>, whatever the buffer held before.
\<close>

theorem C7_degrees:
  assumes "length ind = 2 * m" and "length deg0 = nat n"
  shows "Cget_graph_node_degrees ind (int m) n deg0 =
     (if \<exists>i<m. rejected ind n i then throw DomainError
      else ok (map (\<lambda>v. int (incident_count ind m (int v))) [0..<nat n]))"
  unfolding Cget_graph_node_degrees_def zero_loop [OF assms(2)]
  using degrees_loop [OF assms(1) order_refl, of n] by simp


theorem C7_degrees_witness:
  "length [0, 1, 1, 2, - 1, 5, 2, 0 :: int] = 2 * 4 \<and> length [7, 7, 7 :: int] = nat 3 \<and>
   Cget_graph_node_degrees [0, 1, 1, 2, - 1, 5, 2, 0] (int 4) 3 [7, 7, 7] = ok [2, 2, 2]"
proof -
  have a: "length [0, 1, 1, 2, - 1, 5, 2, 0 :: int] = 2 * 4" by simp
  have b: "length [7, 7, 7 :: int] = nat 3" by simp
  have c: "\<not> (\<exists>i<4. rejected [0, 1, 1, 2, - 1, 5, 2, 0] 3 i)"
    by (simp add: eval_nat_numeral Ex_less_Suc rejected_def accepted_def edge_u_def edge_v_def)
  have d: "map (\<lambda>v. int (incident_count [0, 1, 1, 2, - 1, 5, 2, 0] 4 (int v))) [0..<nat 3] = [2, 2, 2]"
    by (simp add: eval_nat_numeral incident_count_def accepted_def edge_u_def edge_v_def)
  show ?thesis using C7_degrees [OF a b] c d by simp
qed

section \<open>The constructor\<close>

lemma forM_Suc:
  "forM [a..a + int (Suc m) - 1] body s =
     bindR (forM [a..a + int m - 1] body s) (body (a + int m))"
proof -
  have "a + int (Suc m) - 1 = a + int m" by simp
  then show ?thesis by (simp only: forM_snoc)
qed

lemma unsorted_iff: "unsorted d \<longleftrightarrow> \<not> sorted d"
  by (auto simp: unsorted_def sorted_iff_nth_Suc not_le)

lemma check_sorted_loop:
  assumes "j < length d \<or> j = 0"
  shows "forM [1..1 + int j - 1] (\<lambda>i u.
       bindR (rd d (i - 1)) (\<lambda>a.
       bindR (rd d i) (\<lambda>b.
       if a > b then throw DomainError else ok u))) () =
     (if \<exists>i<j. d ! i > d ! Suc i then throw DomainError else ok ())"
  using assms
proof (induction j)
  case 0
  show ?case by simp
next
  case (Suc j)
  let ?body = "(\<lambda>i u.
       bindR (rd d (i - 1)) (\<lambda>a.
       bindR (rd d i) (\<lambda>b.
       if a > b then throw DomainError else ok u)))"
  have IH: "forM [1..1 + int j - 1] ?body () =
     (if \<exists>i<j. d ! i > d ! Suc i then throw DomainError else ok ())"
    using Suc by auto
  have step: "forM [1..1 + int (Suc j) - 1] ?body () =
      bindR (forM [1..1 + int j - 1] ?body ()) (?body (1 + int j))"
    by (rule forM_Suc)
  have body: "?body (1 + int j) () = (if d ! j > d ! Suc j then throw DomainError else ok ())"
    using Suc.prems by (simp add: rd_def nat_add_distrib)
  show ?case
    unfolding step IH using body by (auto simp: less_Suc_eq)
qed

lemma check_sorted_eq:
  assumes "int (length d) = n - 1"
  shows "check_sorted d n = (if unsorted d then throw DomainError else ok ())"
proof -
  have n: "n = int (length d) + 1" using assms by simp
  have 1: "[1..n - 1 - 1] = [1..1 + int (length d - 1) - 1]"
    unfolding n by (cases "length d") simp_all
  have 2: "(\<exists>i<length d - 1. d ! i > d ! Suc i) \<longleftrightarrow> unsorted d"
    unfolding unsorted_def by (auto simp: less_diff_conv)
  show ?thesis
    unfolding check_sorted_def 1
    by (subst check_sorted_loop) (use 2 in \<open>auto simp: less_diff_conv\<close>)
qed


lemma forM_eq:
  assumes "\<And>k. k < m \<Longrightarrow> body (a + int k) (f k) = ok (f (Suc k))"
  shows "forM [a..a + int m - 1] body (f 0) = ok (f m)"
  using assms
proof (induction m)
  case 0
  show ?case by simp
next
  case (Suc m)
  then show ?case by (simp only: forM_Suc) simp
qed

lemma update_fill:
  assumes "length xs < n"
  shows "(xs @ replicate (n - length xs) z)[length xs := v] = (xs @ [v]) @ replicate (n - Suc (length xs)) z"
proof -
  have "n - length xs = Suc (n - Suc (length xs))" using assms by simp
  then have "replicate (n - length xs) z = z # replicate (n - Suc (length xs)) z"
    by (metis replicate_Suc)
  then show ?thesis by simp
qed

lemma engine0_reset: "(engine0 d e n nl z)\<lparr>deg := dg, noise_count := 0\<rparr> = engine0 d e n nl dg"
  by (simp add: engine0_def)

lemma denoise_identity_loop:
  assumes "0 \<le> n"
  shows "forM [0..n - 1] denoise_identity_body (engine0 d e n False dg) = ok (plain_engine d e n dg)"
proof -
  define f where "f k = (engine0 d e n False dg)
       \<lparr>denoise_index := map int [0..<k] @ replicate (nat n - k) 0,
        denoise_index_rev := map int [0..<k] @ replicate (nat n - k) 0\<rparr>" for k
  have step: "denoise_identity_body (0 + int k) (f k) = ok (f (Suc k))" if "k < nat n" for k
  proof -
    have "(map int [0..<k] @ replicate (nat n - k) 0)[k := int k] = map int [0..<Suc k] @ replicate (nat n - Suc k) 0"
      using update_fill [of "map int [0..<k]" "nat n" 0 "int k"] that by simp
    then show ?thesis
      using that assms by (simp add: denoise_identity_body_def f_def wr_def)
  qed
  have "forM [0..0 + int (nat n) - 1] denoise_identity_body (f 0) = ok (f (nat n))"
    by (rule forM_eq) (rule step)
  moreover have "f 0 = engine0 d e n False dg"
    by (simp add: f_def engine0_def)
  moreover have "f (nat n) = plain_engine d e n dg"
    by (simp add: f_def plain_engine_def)
  ultimately show ?thesis using assms by simp
qed




lemma leaf_inner_count: "leaf_count dg k + inner_count dg k = k"
  using sum_length_filter_compl [of "\<lambda>v. dg ! v = 1" "[0..<k]"]
  by (simp add: leaf_count_def inner_count_def)

lemma inner_count_le: "inner_count dg k \<le> k"
  using leaf_inner_count [of dg k] by simp

lemma leaf_count_Suc: "leaf_count dg (Suc k) = (if dg ! k = 1 then Suc (leaf_count dg k) else leaf_count dg k)"
  by (simp add: leaf_count_def)

lemma inner_count_Suc: "inner_count dg (Suc k) = (if dg ! k = 1 then inner_count dg k else Suc (inner_count dg k))"
  by (simp add: inner_count_def)

lemma denoise_leaf_step:
  assumes "0 \<le> n" "length dg = nat n" "k < nat n"
  shows "denoise_leaf_body (0 + int k) (leaf_state d e n dg k) = ok (leaf_state d e n dg (Suc k))"
proof -
  let ?inner = "\<lambda>k. map int (filter (\<lambda>v. dg ! v \<noteq> 1) [0..<k])"
  let ?rev = "\<lambda>k. map (\<lambda>v. if dg ! v = 1 then - 1 else int (inner_count dg v)) [0..<k]"
  have len: "length (?inner k) = inner_count dg k"
    by (simp add: inner_count_def)
  have lenr: "length (?rev k) = k"
    by simp
  have r: "(?rev k @ replicate (nat n - k) 0)[k := v] = (?rev k @ [v]) @ replicate (nat n - Suc k) 0" for v
    using update_fill [of "?rev k" "nat n" 0 v] assms(3) unfolding lenr by simp
  have ic: "inner_count dg k < nat n"
    using inner_count_le [of dg k] assms(3) by simp
  have i: "(?inner k @ replicate (nat n - inner_count dg k) 0)[inner_count dg k := v] =
        (?inner k @ [v]) @ replicate (nat n - Suc (inner_count dg k)) 0" for v
    using update_fill [of "?inner k" "nat n" 0 v] ic unfolding len by simp
  have dgk: "rd dg (int k) = ok (dg ! k)"
    using assms by (simp add: rd_def)
  have w1: "wr (?rev k @ replicate (nat n - k) 0) (int k) v = ok ((?rev k @ [v]) @ replicate (nat n - Suc k) 0)" for v
    using assms r [of v] by (simp add: wr_def)
  have w2: "wr (?inner k @ replicate (nat n - inner_count dg k) 0) (int (inner_count dg k)) v
     = ok ((?inner k @ [v]) @ replicate (nat n - Suc (inner_count dg k)) 0)" for v
    using ic i [of v] len assms by (simp add: wr_def)
  show ?thesis
  proof (cases "dg ! k = 1")
    case True
    then show ?thesis
      unfolding leaf_state_def denoise_leaf_body_def
      by (simp add: engine0_def dgk w1 leaf_count_Suc inner_count_Suc del: upt_Suc)
        (simp add: True)
  next
    case False
    then show ?thesis
      unfolding leaf_state_def denoise_leaf_body_def
      by (simp add: engine0_def dgk w1 w2 leaf_count_Suc inner_count_Suc del: upt_Suc)
        (simp add: False)
  qed
qed


lemma denoise_leaf_loop:
  assumes "0 \<le> n" "length dg = nat n"
  shows "forM [0..n - 1] denoise_leaf_body (engine0 d e n True dg, 0) =
     ok (noise_engine d e n dg, int (inner_count dg (nat n)))"
proof -
  have "forM [0..0 + int (nat n) - 1] denoise_leaf_body (leaf_state d e n dg 0) = ok (leaf_state d e n dg (nat n))"
    by (rule forM_eq) (rule denoise_leaf_step [OF assms])
  moreover have "leaf_state d e n dg 0 = (engine0 d e n True dg, 0)"
    by (simp add: leaf_state_def engine0_def leaf_count_def inner_count_def)
  moreover have "leaf_state d e n dg (nat n) = (noise_engine d e n dg, int (inner_count dg (nat n)))"
    using leaf_inner_count [of dg "nat n"] by (simp add: leaf_state_def noise_engine_def)
  ultimately show ?thesis using assms by simp
qed

lemma degrees_length:
  assumes "Cget_graph_node_degrees ind m n dg0 = ok dg"
  shows "length dg = length dg0"
proof -
  from assms obtain dg1 where 1: "forM [0..n - 1] (\<lambda>i dg. wr dg i 0) dg0 = ok dg1"
    and 2: "forM [0..m - 1] (degrees_body ind n) dg1 = ok dg"
    by (auto simp: Cget_graph_node_degrees_def bindR_eq_ok)
  have "length dg1 = length dg0"
    by (rule forM_partial [OF 1, where P = "\<lambda>s. length s = length dg0"])
      (auto simp: wr_def split: if_splits)
  moreover have "length dg = length dg1"
    by (rule forM_partial [OF 2, where P = "\<lambda>s. length s = length dg1"])
      (auto simp: degrees_body_def bindR_eq_ok wr_def split: if_splits)
  ultimately show ?thesis by simp
qed

text \<open>The constructor, case by case.\<close>

lemma CGenie_new_eq:
  assumes "0 \<le> n"
  shows "CGenie_new d e n nl =
     bindR (check_sorted d n) (\<lambda>u.
     bindR (Cget_graph_node_degrees e (n - 1) n (replicate (nat n) 0)) (\<lambda>dg.
       if nl then
         if leaf_count dg (nat n) < 2 then throw RuntimeError else ok (noise_engine d e n dg)
       else ok (plain_engine d e n dg)))"
proof (cases "check_sorted d n" rule: res_cases)
  case none
  then show ?thesis using assms by (simp add: CGenie_new_def)
next
  case (err x)
  then show ?thesis using assms by (simp add: CGenie_new_def)
next
  case (val u)
  show ?thesis
  proof (cases "Cget_graph_node_degrees e (n - 1) n (replicate (nat n) 0)" rule: res_cases)
    case none
    then show ?thesis using assms val by (simp add: CGenie_new_def)
  next
    case (err x)
    then show ?thesis using assms val by (simp add: CGenie_new_def)
  next
    case dg: (val dg)
    have len: "length dg = nat n"
      using degrees_length [OF dg] by simp
    have g: "\<lparr>mst_d = d, mst_i = e, cg_n = n, noise_leaves = b, deg = dg,
                 noise_count = 0, denoise_index = replicate (nat n) 0, denoise_index_rev = replicate (nat n) 0,
                 next_edge = replicate (nat n) 0, prev_edge = replicate (nat n) 0, curidx = 0, lastidx = 0,
                 ds = CGiniDisjointSets_new 0\<rparr> = engine0 d e n b dg" for b
      by (simp add: engine0_def)
    have nc: "noise_count (noise_engine d e n dg) = int (leaf_count dg (nat n))"
      by (simp add: noise_engine_def)
    have sum: "int (inner_count dg (nat n)) + int (leaf_count dg (nat n)) = n"
      using leaf_inner_count [of dg "nat n"] assms by linarith
    show ?thesis
    proof (cases nl)
      case True
      then show ?thesis
        using assms val dg
        by (simp add: CGenie_new_def Let_def g denoise_leaf_loop [OF assms len] nc sum)
    next
      case False
      then show ?thesis
        using assms val dg
        by (simp add: CGenie_new_def Let_def g denoise_identity_loop [OF assms])
    qed
  qed
qed


text \<open>
  C8: when the edge list passes the checks of the degree computer, the constructor raises a
  domain error if and only if some weight is greater than its successor, that is, iff the
  \<open>n - 1\<close> weights are not ascending.
\<close>

theorem C8_unsorted_domain_error:
  assumes "int (length d) = n - 1"
    and "Cget_graph_node_degrees e (n - 1) n (replicate (nat n) 0) \<noteq> throw DomainError"
  shows "(CGenie_new d e n nl = throw DomainError \<longleftrightarrow> (\<exists>i. Suc i < length d \<and> d ! i > d ! Suc i))
       \<and> (CGenie_new d e n nl = throw DomainError \<longleftrightarrow> \<not> sorted d)"
proof -
  have n: "0 \<le> n" using assms(1) by simp
  have "CGenie_new d e n nl = throw DomainError \<longleftrightarrow> unsorted d"
  proof (cases "unsorted d")
    case True
    then show ?thesis
      by (simp add: CGenie_new_eq [OF n] check_sorted_eq [OF assms(1)])
  next
    case False
    show ?thesis
      using assms(2) False
      by (cases "Cget_graph_node_degrees e (n - 1) n (replicate (nat n) 0)" rule: res_cases)
        (simp_all add: CGenie_new_eq [OF n] check_sorted_eq [OF assms(1)])
  qed
  then show ?thesis
    by (simp add: unsorted_iff [symmetric]) (simp add: unsorted_def)
qed

theorem C8_unsorted_domain_error_witness:
  "int (length [1, 3, 2 :: int]) = 4 - 1 \<and>
   Cget_graph_node_degrees [0, 1, 1, 2, 2, 3] (4 - 1) 4 (replicate (nat 4) 0) \<noteq> throw DomainError \<and>
   CGenie_new [1, 3, 2 :: int] [0, 1, 1, 2, 2, 3] 4 False = throw DomainError \<and>
   \<not> sorted [1, 3, 2 :: int]"
proof -
  have a: "int (length [1, 3, 2 :: int]) = 4 - 1" by simp
  have b: "Cget_graph_node_degrees [0, 1, 1, 2, 2, 3] (4 - 1) 4 (replicate (nat 4) 0) \<noteq> throw DomainError"
    by code_simp
  have c: "\<not> sorted [1, 3, 2 :: int]" by simp
  show ?thesis using C8_unsorted_domain_error [OF a b, of False] a b c by simp
qed

text \<open>
  C6 (as stated in the specification): with \<open>noise_leaves\<close>, construction fails whenever
  fewer than two vertices are not noise.  On the star with centre 0 and four leaves only the
  centre is not noise, and the constructor succeeds.
\<close>

theorem C6_noise_counterexample:
  "inner_count [4, 1, 1, 1, 1] 5 < 2 \<and> length (filter (\<lambda>x. 1 < x) [4, 1, 1, 1, 1 :: int]) < 2 \<and>
   CGenie_new [1, 1, 1, 1 :: int] [0, 1, 0, 2, 0, 3, 0, 4] 5 True =
     ok (noise_engine [1, 1, 1, 1] [0, 1, 0, 2, 0, 3, 0, 4] 5 [4, 1, 1, 1, 1])"
  by code_simp

text \<open>
  C6 (amended): with \<open>noise_leaves\<close>, once the weights and the edges have passed their
  checks, construction fails with a runtime error exactly when fewer than two vertices are
  noise, that is, have degree 1 (\<open>noise_count < 2\<close>), and succeeds otherwise, with
  \<open>noise_count\<close> the number of leaves; the number of vertices that are not noise is not
  checked.
\<close>

theorem C6_noise_count_check:
  assumes "0 \<le> n"
    and "check_sorted d n = ok ()"
    and "Cget_graph_node_degrees e (n - 1) n (replicate (nat n) 0) = ok dg"
  shows "CGenie_new d e n True =
           (if leaf_count dg (nat n) < 2 then throw RuntimeError else ok (noise_engine d e n dg))
       \<and> noise_count (noise_engine d e n dg) = int (leaf_count dg (nat n))"
  using assms(2,3) by (simp add: CGenie_new_eq [OF assms(1)] noise_engine_def)

theorem C6_noise_count_check_witness:
  "(0::int) \<le> 4 \<and> check_sorted [1, 2, 3 :: int] 4 = ok () \<and>
   Cget_graph_node_degrees [0, 1, 1, 2, 2, 3] (4 - 1) 4 (replicate (nat 4) 0) = ok [1, 2, 2, 1] \<and>
   leaf_count [1, 2, 2, 1] (nat 4) = 2 \<and>
   CGenie_new [1, 2, 3 :: int] [0, 1, 1, 2, 2, 3] 4 True =
     ok (noise_engine [1, 2, 3] [0, 1, 1, 2, 2, 3] 4 [1, 2, 2, 1]) \<and>
   CGenie_new [1 :: int] [- 1, - 1] 2 True = throw RuntimeError"
proof -
  have a: "(0::int) \<le> 4" "(0::int) \<le> 2" by simp_all
  have b: "check_sorted [1, 2, 3 :: int] 4 = ok ()" "check_sorted [1 :: int] 2 = ok ()"
    by code_simp+
  have c: "Cget_graph_node_degrees [0, 1, 1, 2, 2, 3] (4 - 1) 4 (replicate (nat 4) 0) = ok [1, 2, 2, 1]"
    "Cget_graph_node_degrees [- 1, - 1] (2 - 1) 2 (replicate (nat 2) 0) = ok [0, 0]"
    by code_simp+
  have d: "leaf_count [1, 2, 2, 1] (nat 4) = 2" "leaf_count [0, 0] (nat 2) = 0"
    by code_simp+
  show ?thesis
    using C6_noise_count_check [OF a(1) b(1) c(1)] C6_noise_count_check [OF a(2) b(2) c(2)] a b c d
    by simp
qed

section \<open>\<open>skiplist_init\<close> when every edge touches a leaf\<close>

lemma forM_const:
  assumes "\<And>i. i \<in> set is \<Longrightarrow> body i s = ok s"
  shows "forM is body s = ok s"
  using assms by (induction "is") simp_all

lemma skiplist_noise_body_skip:
  assumes len: "length (mst_i g) = 2 * nat (cg_n g - 1)"
    and rng: "\<forall>x\<in>set (mst_i g). 0 \<le> x \<and> x < int (length (deg g))"
    and i: "0 \<le> i" "i \<le> cg_n g - 2"
    and no: "\<not> inner_edge g i"
  shows "skiplist_noise_body i g = ok g"
proof -
  have a: "nat (2 * i) < length (mst_i g)" "nat (2 * i + 1) < length (mst_i g)"
    using len i by simp_all
  then have m: "mst_i g ! nat (2 * i) \<in> set (mst_i g)" "mst_i g ! nat (2 * i + 1) \<in> set (mst_i g)"
    by simp_all
  have r1: "rd (mst_i g) (2 * i + 0) = ok (mst_i g ! nat (2 * i))"
    and r2: "rd (mst_i g) (2 * i + 1) = ok (mst_i g ! nat (2 * i + 1))"
    using a i by (simp_all add: rd_def)
  have d1: "rd (deg g) (mst_i g ! nat (2 * i)) = ok (deg g ! nat (mst_i g ! nat (2 * i)))"
    and d2: "rd (deg g) (mst_i g ! nat (2 * i + 1)) = ok (deg g ! nat (mst_i g ! nat (2 * i + 1)))"
    using rng m by (simp_all add: rd_def)
  show ?thesis
    using no unfolding inner_edge_def skiplist_noise_body_def r1 r2
    by (simp add: d1 d2)
qed

text \<open>
  C10: in leaves-as-noise mode, when the edge array is well formed and no edge has both
  end points of degree greater than 1, the loop of \<open>skiplist_init\<close> links nothing and leaves
  \<open>lastidx = -1\<close>, so the final write \<open>next_edge[lastidx] = n - 1\<close> is out of bounds, and
  \<open>apply_genie\<close> ends there for every number of clusters, before \<open>do_genie\<close> is called.  The
  star with four leaves is accepted by the constructor and is such an input; \<open>do_genie\<close>
  alone would have raised a runtime error on it.
\<close>

theorem C10_skiplist_init_out_of_bounds:
  "(noise_leaves g \<and> length (mst_i g) = 2 * nat (cg_n g - 1)
      \<and> (\<forall>x\<in>set (mst_i g). 0 \<le> x \<and> x < int (length (deg g)))
      \<and> (\<forall>i\<in>{0..cg_n g - 2}. \<not> inner_edge g i)
    \<longrightarrow> forM [0..cg_n g - 1 - 1] skiplist_noise_body (g\<lparr>curidx := - 1, lastidx := - 1\<rparr>)
          = ok (g\<lparr>curidx := - 1, lastidx := - 1\<rparr>)
      \<and> skiplist_init g = throw OutOfBounds
      \<and> apply_genie g n_clusters gini_threshold res = throw OutOfBounds)
   \<and> CGenie_new [1, 1, 1, 1 :: int] [0, 1, 0, 2, 0, 3, 0, 4] 5 True = ok star_engine
   \<and> skiplist_init star_engine = throw OutOfBounds
   \<and> apply_genie star_engine 1 (1 / 2) res = throw OutOfBounds
   \<and> do_genie star_engine 1 (1 / 2) = throw RuntimeError"
proof -
  have general: "forM [0..cg_n g - 1 - 1] skiplist_noise_body (g\<lparr>curidx := - 1, lastidx := - 1\<rparr>)
          = ok (g\<lparr>curidx := - 1, lastidx := - 1\<rparr>)
      \<and> skiplist_init g = throw OutOfBounds
      \<and> apply_genie g n_clusters gini_threshold res = throw OutOfBounds"
    if nl: "noise_leaves g" and len: "length (mst_i g) = 2 * nat (cg_n g - 1)"
      and rng: "\<forall>x\<in>set (mst_i g). 0 \<le> x \<and> x < int (length (deg g))"
      and no: "\<forall>i\<in>{0..cg_n g - 2}. \<not> inner_edge g i"
  proof -
    let ?g = "g\<lparr>curidx := - 1, lastidx := - 1\<rparr>"
    have loop: "forM [0..cg_n g - 1 - 1] skiplist_noise_body ?g = ok ?g"
    proof (rule forM_const)
      fix i
      assume "i \<in> set [0..cg_n g - 1 - 1]"
      then have i: "0 \<le> i" "i \<le> cg_n g - 2" by simp_all
      then have "\<not> inner_edge ?g i"
        using no by (simp add: inner_edge_def)
      then show "skiplist_noise_body i ?g = ok ?g"
        using len rng i by (intro skiplist_noise_body_skip) simp_all
    qed
    have init: "skiplist_init g = throw OutOfBounds"
      unfolding skiplist_init_def by (simp only: nl if_True loop bindR_ok) (simp add: wr_def)
    show ?thesis
      using loop init by (simp add: apply_genie_def)
  qed
  have star: "CGenie_new [1, 1, 1, 1 :: int] [0, 1, 0, 2, 0, 3, 0, 4] 5 True = ok star_engine"
    "skiplist_init star_engine = throw OutOfBounds"
    "do_genie star_engine 1 (1 / 2) = throw RuntimeError"
    by code_simp+
  have "apply_genie star_engine 1 (1 / 2) res = throw OutOfBounds"
    using star(2) by (simp add: apply_genie_def)
  then show ?thesis using general star by blast
qed

theorem C10_skiplist_init_out_of_bounds_witness:
  "noise_leaves star_engine \<and> length (mst_i star_engine) = 2 * nat (cg_n star_engine - 1)
      \<and> list_all (\<lambda>x. 0 \<le> x \<and> x < int (length (deg star_engine))) (mst_i star_engine)
      \<and> list_all (\<lambda>i. \<not> inner_edge star_engine i) [0..cg_n star_engine - 2]
      \<and> forM [0..cg_n star_engine - 1 - 1] skiplist_noise_body (star_engine\<lparr>curidx := - 1, lastidx := - 1\<rparr>)
          = ok (star_engine\<lparr>curidx := - 1, lastidx := - 1\<rparr>)
      \<and> lastidx (star_engine\<lparr>curidx := - 1, lastidx := - 1\<rparr>) = - 1
      \<and> apply_genie star_engine 1 (1 / 2) [0, 0, 0, 0, 0] = throw OutOfBounds"
proof -
  have a: "noise_leaves star_engine" by code_simp
  have b: "length (mst_i star_engine) = 2 * nat (cg_n star_engine - 1)" by code_simp
  have c: "list_all (\<lambda>x. 0 \<le> x \<and> x < int (length (deg star_engine))) (mst_i star_engine)"
    by code_simp
  have d: "list_all (\<lambda>i. \<not> inner_edge star_engine i) [0..cg_n star_engine - 2]"
    by code_simp
  have c': "\<forall>x\<in>set (mst_i star_engine). 0 \<le> x \<and> x < int (length (deg star_engine))"
    using c by (simp add: list_all_iff)
  have d': "\<forall>i\<in>{0..cg_n star_engine - 2}. \<not> inner_edge star_engine i"
    using d by (simp add: list_all_iff)
  show ?thesis
    using C10_skiplist_init_out_of_bounds [of star_engine 1 "1 / 2" "[0, 0, 0, 0, 0]"] a b c d c' d'
    by simp
qed

text \<open>
  C5 (as stated in the specification): on the star with four leaves, leaves as noise
  points, one cluster and threshold \<open>1/2\<close>, \<open>apply_genie\<close> succeeds and labels the centre 0
  and every leaf \<open>-1\<close>.  It does not.
\<close>

theorem C5_star_counterexample:
  "genie_labels [1, 1, 1, 1 :: int] [0, 1, 0, 2, 0, 3, 0, 4] 5 True 1 (1 / 2) [0, 0, 0, 0, 0]
     \<noteq> ok [0, - 1, - 1, - 1, - 1]"
  by code_simp

text \<open>
  C5 (amended): on that input the constructor succeeds and classifies the four leaves as
  noise (\<open>noise_count = 4\<close>, \<open>denoise_index_rev = [0, -1, -1, -1, -1]\<close>), but \<open>apply_genie\<close>
  returns no labels: \<open>do_genie\<close> refuses one cluster, because
  \<open>n - noise_count - n_clusters = 5 - 4 - 1\<close> is not positive, whatever the state of the
  skip-list.
\<close>

theorem C5_star_no_labels:
  "CGenie_new [1, 1, 1, 1 :: int] [0, 1, 0, 2, 0, 3, 0, 4] 5 True = ok star_engine
   \<and> noise_count star_engine = 4
   \<and> denoise_index_rev star_engine = [0, - 1, - 1, - 1, - 1]
   \<and> do_genie (star_engine\<lparr>next_edge := ne, prev_edge := pe, curidx := c, lastidx := l\<rparr>) 1 (1 / 2)
       = throw RuntimeError
   \<and> (\<exists>err. genie_labels [1, 1, 1, 1 :: int] [0, 1, 0, 2, 0, 3, 0, 4] 5 True 1 (1 / 2) res = throw err)"
proof -
  have 1: "CGenie_new [1, 1, 1, 1 :: int] [0, 1, 0, 2, 0, 3, 0, 4] 5 True = ok star_engine"
    "noise_count star_engine = 4"
    "denoise_index_rev star_engine = [0, - 1, - 1, - 1, - 1]"
    "cg_n star_engine = 5"
    by code_simp+
  have 2: "do_genie (star_engine\<lparr>next_edge := ne, prev_edge := pe, curidx := c, lastidx := l\<rparr>) 1 (1 / 2)
       = throw RuntimeError"
    by (simp add: do_genie_def 1(2,4))
  have "skiplist_init star_engine = throw OutOfBounds" by code_simp
  then have "genie_labels [1, 1, 1, 1 :: int] [0, 1, 0, 2, 0, 3, 0, 4] 5 True 1 (1 / 2) res = throw OutOfBounds"
    by (simp add: genie_labels_def 1(1) apply_genie_def)
  then show ?thesis using 1(1,2,3) 2 by blast
qed

section \<open>The disjoint sets\<close>

declare rep_of.simps [simp del] path_of.simps [simp del]

lemma rep_of_le: "rep_of p x \<le> x"
proof (induction p x rule: rep_of.induct)
  case (1 p x)
  show ?case
  proof (cases "x < length p \<and> p ! x < x")
    case True
    then have "rep_of p (p ! x) \<le> p ! x" using 1 by simp
    then show ?thesis using True by (subst rep_of.simps) simp
  next
    case False
    then show ?thesis by (subst rep_of.simps) auto
  qed
qed

lemma rep_of_less_length: "x < length p \<Longrightarrow> rep_of p x < length p"
  using rep_of_le [of p x] by simp

lemma rep_of_root: "par_inv p \<Longrightarrow> x < length p \<Longrightarrow> p ! rep_of p x = rep_of p x"
proof (induction p x rule: rep_of.induct)
  case (1 p x)
  show ?case
  proof (cases "p ! x < x")
    case True
    then have "rep_of p x = rep_of p (p ! x)" using 1(3) by (subst rep_of.simps) simp
    moreover have "p ! x < length p" using True 1(3) by simp
    ultimately show ?thesis using 1 True by simp
  next
    case False
    then have "p ! x = x" using 1(2,3) by (auto simp: par_inv_def le_neq_implies_less)
    moreover have "rep_of p x = x" using False by (subst rep_of.simps) simp
    ultimately show ?thesis by simp
  qed
qed

lemma rep_of_fixed: "p ! x = x \<Longrightarrow> rep_of p x = x"
  by (subst rep_of.simps) simp

lemma rep_of_out: "length p \<le> x \<Longrightarrow> rep_of p x = x"
  by (subst rep_of.simps) simp

lemma rep_of_step: "x < length p \<Longrightarrow> p ! x < x \<Longrightarrow> rep_of p x = rep_of p (p ! x)"
  by (subst rep_of.simps) simp

lemma rep_of_parent: "par_inv p \<Longrightarrow> x < length p \<Longrightarrow> rep_of p (p ! x) = rep_of p x"
  by (cases "p ! x < x") (auto simp: rep_of_step par_inv_def le_neq_implies_less)

lemma rep_of_idem: "par_inv p \<Longrightarrow> rep_of p (rep_of p x) = rep_of p x"
  by (cases "x < length p") (simp_all add: rep_of_root rep_of_fixed rep_of_out)

lemma path_of_hd: "x \<in> set (path_of p x)"
  by (subst path_of.simps) simp

lemma path_of_step: "x < length p \<Longrightarrow> p ! x < x \<Longrightarrow> path_of p x = x # path_of p (p ! x)"
  by (subst path_of.simps) simp

lemma path_of_stop: "\<not> (x < length p \<and> p ! x < x) \<Longrightarrow> path_of p x = [x]"
  by (subst path_of.simps) auto

lemma path_of_le: "y \<in> set (path_of p x) \<Longrightarrow> y \<le> x"
proof (induction p x rule: path_of.induct)
  case (1 p x)
  show ?case
  proof (cases "x < length p \<and> p ! x < x")
    case True
    then show ?thesis using 1 by (auto simp: path_of_step)
  next
    case False
    then show ?thesis using 1(2) by (simp add: path_of_stop)
  qed
qed

lemma path_of_rep: "y \<in> set (path_of p x) \<Longrightarrow> rep_of p y = rep_of p x"
proof (induction p x rule: path_of.induct)
  case (1 p x)
  show ?case
  proof (cases "x < length p \<and> p ! x < x")
    case True
    then show ?thesis using 1 by (auto simp: path_of_step rep_of_step)
  next
    case False
    then show ?thesis using 1(2) by (simp add: path_of_stop)
  qed
qed

lemma path_of_last: "last (path_of p x) = rep_of p x"
proof (induction p x rule: path_of.induct)
  case (1 p x)
  show ?case
  proof (cases "x < length p \<and> p ! x < x")
    case True
    moreover have "path_of p (p ! x) \<noteq> []" using path_of_hd [of "p ! x" p] by auto
    ultimately show ?thesis using 1 by (simp add: path_of_step rep_of_step)
  next
    case False
    then show ?thesis by (simp add: path_of_stop) (subst rep_of.simps, auto)
  qed
qed

lemma length_compress [simp]: "length (compress p x) = length p"
  by (simp add: compress_def)

lemma compress_nth:
  "y < length p \<Longrightarrow> compress p x ! y = (if y \<in> set (path_of p x) then rep_of p x else p ! y)"
  by (simp add: compress_def)

lemma compress_root: "par_inv p \<Longrightarrow> p ! x = x \<Longrightarrow> compress p x = p"
  by (intro nth_equalityI) (auto simp: compress_nth path_of_stop rep_of_fixed)

lemma compress_step:
  assumes "x < length p" "p ! x < x"
  shows "(compress p (p ! x))[x := rep_of p (p ! x)] = compress p x"
proof (intro nth_equalityI)
  show "length ((compress p (p ! x))[x := rep_of p (p ! x)]) = length (compress p x)" by simp
next
  fix y
  assume "y < length ((compress p (p ! x))[x := rep_of p (p ! x)])"
  then have y: "y < length p" by simp
  show "(compress p (p ! x))[x := rep_of p (p ! x)] ! y = compress p x ! y"
    using y assms by (auto simp: nth_list_update compress_nth path_of_step rep_of_step)
qed

lemma DisjointSets_find_eq:
  assumes "ds_inv d" "x < ds_n d"
  shows "DisjointSets_find d x = ok (d\<lparr>par := compress (par d) x\<rparr>, rep_of (par d) x)"
  using assms(2)
proof (induction x rule: less_induct)
  case (less x)
  have len: "length (par d) = ds_n d" and inv: "par_inv (par d)"
    using assms(1) by (simp_all add: ds_inv_def)
  have rdx: "rdn (par d) x = ok (par d ! x)"
    using less.prems len by (simp add: rdn_def)
  show ?case
  proof (cases "par d ! x = x")
    case True
    then show ?thesis
      using less.prems rdx inv
      by (subst DisjointSets_find.simps) (simp add: compress_root rep_of_fixed)
  next
    case False
    then have lt: "par d ! x < x"
      using inv less.prems len by (auto simp: par_inv_def le_neq_implies_less)
    then have IH: "DisjointSets_find d (par d ! x) =
        ok (d\<lparr>par := compress (par d) (par d ! x)\<rparr>, rep_of (par d) (par d ! x))"
      using less by simp
    show ?thesis
      using less.prems rdx False len lt
      by (subst DisjointSets_find.simps)
        (simp add: IH wrn_def compress_step rep_of_step)
  qed
qed

lemma par_inv_compress: "par_inv p \<Longrightarrow> par_inv (compress p x)"
  unfolding par_inv_def
proof (intro allI impI)
  fix i
  assume inv: "\<forall>i<length p. p ! i \<le> i" and "i < length (compress p x)"
  then have i: "i < length p" by simp
  show "compress p x ! i \<le> i"
  proof (cases "i \<in> set (path_of p x)")
    case True
    then have "rep_of p x = rep_of p i" by (simp add: path_of_rep)
    then show ?thesis using i True rep_of_le [of p i] by (simp add: compress_nth)
  next
    case False
    then show ?thesis using i inv by (simp add: compress_nth)
  qed
qed

lemma rep_of_compress: "par_inv p \<Longrightarrow> rep_of (compress p x) y = rep_of p y"
proof (induction y rule: less_induct)
  case (less y)
  show ?case
  proof (cases "y < length p")
    case False
    then show ?thesis by (simp add: rep_of_out)
  next
    case y: True
    show ?thesis
    proof (cases "y \<in> set (path_of p x)")
      case True
      then have r: "rep_of p x = rep_of p y" by (simp add: path_of_rep)
      have c: "compress p x ! y = rep_of p y" using y True r by (simp add: compress_nth)
      show ?thesis
      proof (cases "rep_of p y < y")
        case True
        then have "rep_of (compress p x) y = rep_of (compress p x) (rep_of p y)"
          using y c by (simp add: rep_of_step)
        also have "\<dots> = rep_of p (rep_of p y)" using less True by simp
        finally show ?thesis using less.prems by (simp add: rep_of_idem)
      next
        case False
        then have "rep_of p y = y" using rep_of_le [of p y] by simp
        then show ?thesis using c by (simp add: rep_of_fixed)
      qed
    next
      case False
      then have c: "compress p x ! y = p ! y" using y by (simp add: compress_nth)
      show ?thesis
      proof (cases "p ! y < y")
        case True
        then show ?thesis using y c less by (simp add: rep_of_step)
      next
        case False
        then have "p ! y = y" using less.prems y by (auto simp: par_inv_def le_neq_implies_less)
        then show ?thesis using c by (simp add: rep_of_fixed)
      qed
    qed
  qed
qed

lemma ds_inv_compress: "ds_inv d \<Longrightarrow> ds_inv (d\<lparr>par := compress (par d) x\<rparr>)"
  by (simp add: ds_inv_def par_inv_compress)


lemma DisjointSets_find_out: "ds_n d \<le> x \<Longrightarrow> DisjointSets_find d x = throw DomainError"
  by (subst DisjointSets_find.simps) simp

lemma rep_of_link:
  assumes inv: "par_inv p" and a: "a < b" "b < length p" "p ! a = a" "p ! b = b"
  shows "rep_of (p[b := a]) z = (if rep_of p z = b then a else rep_of p z)"
proof (induction z rule: less_induct)
  case (less z)
  show ?case
  proof (cases "z < length p")
    case False
    then show ?thesis using a by (auto simp: rep_of_out)
  next
    case z: True
    show ?thesis
    proof (cases "z = b")
      case True
      have "rep_of (p[b := a]) b = rep_of (p[b := a]) a"
        using a by (subst rep_of.simps) simp
      also have "\<dots> = a" using a by (intro rep_of_fixed) simp
      finally show ?thesis using True a by (simp add: rep_of_fixed)
    next
      case False
      show ?thesis
      proof (cases "p ! z < z")
        case True
        then have "rep_of (p[b := a]) z = rep_of (p[b := a]) (p ! z)"
          using z False by (subst rep_of.simps) simp
        then show ?thesis using less True z by (simp add: rep_of_step)
      next
        case nlt: False
        then have "p ! z = z" using inv z by (auto simp: par_inv_def le_neq_implies_less)
        then show ?thesis using False by (simp add: rep_of_fixed)
      qed
    qed
  qed
qed

lemma par_inv_link: "par_inv p \<Longrightarrow> a < b \<Longrightarrow> par_inv (p[b := a])"
  unfolding par_inv_def
proof (intro allI impI)
  fix i
  assume "\<forall>i<length p. p ! i \<le> i" "a < b" "i < length (p[b := a])"
  then show "p[b := a] ! i \<le> i"
    by (cases "i = b") simp_all
qed

lemma par_inv_union: "par_inv p \<Longrightarrow> rep_of p x \<noteq> rep_of p y \<Longrightarrow> par_inv (union_par p x y)"
  unfolding union_par_def by (intro par_inv_link par_inv_compress) auto

lemma length_union_par [simp]: "length (union_par p x y) = length p"
  by (simp add: union_par_def)

lemma rep_of_union:
  assumes "par_inv p" "x < length p" "y < length p" "rep_of p x \<noteq> rep_of p y"
  shows "rep_of (union_par p x y) z =
     (if rep_of p z = max (rep_of p x) (rep_of p y) then min (rep_of p x) (rep_of p y) else rep_of p z)"
proof -
  let ?q = "compress (compress p x) y"
  have q: "par_inv ?q" using assms(1) by (simp add: par_inv_compress)
  have r: "rep_of ?q z = rep_of p z" for z
    using assms(1) by (simp add: rep_of_compress par_inv_compress)
  have root: "?q ! rep_of p z = rep_of p z" if "z < length p" for z
    using rep_of_root [OF q, of z] that by (simp add: r)
  have "rep_of (?q[max (rep_of p x) (rep_of p y) := min (rep_of p x) (rep_of p y)]) z =
     (if rep_of ?q z = max (rep_of p x) (rep_of p y) then min (rep_of p x) (rep_of p y) else rep_of ?q z)"
    using assms root [of x] root [of y] rep_of_less_length [of x p] rep_of_less_length [of y p]
    by (intro rep_of_link [OF q]) (auto simp: max_def min_def)
  then show ?thesis by (simp add: union_par_def r)
qed

lemma DisjointSets_merge_eq:
  assumes "ds_inv d" "x < ds_n d" "y < ds_n d"
  shows "DisjointSets_merge d x y =
     (if rep_of (par d) x = rep_of (par d) y then throw InvalidArgument
      else ok (d\<lparr>par := union_par (par d) x y, ds_k := dec_ull (ds_k d)\<rparr>,
               min (rep_of (par d) x) (rep_of (par d) y)))"
proof -
  have inv: "par_inv (par d)" and len: "length (par d) = ds_n d"
    using assms(1) by (simp_all add: ds_inv_def)
  let ?d1 = "d\<lparr>par := compress (par d) x\<rparr>"
  have f1: "DisjointSets_find d x = ok (?d1, rep_of (par d) x)"
    using assms by (simp add: DisjointSets_find_eq)
  have "ds_inv ?d1" using assms(1) by (rule ds_inv_compress)
  then have f2: "DisjointSets_find ?d1 y =
      ok (?d1\<lparr>par := compress (par ?d1) y\<rparr>, rep_of (par ?d1) y)"
    using assms(3) by (intro DisjointSets_find_eq) simp_all
  have r: "rep_of (par ?d1) y = rep_of (par d) y"
    using inv by (simp add: rep_of_compress)
  have lt: "rep_of (par d) x < length (par d)" "rep_of (par d) y < length (par d)"
    using rep_of_less_length [of x "par d"] rep_of_less_length [of y "par d"] assms(2,3) len
    by simp_all
  show ?thesis
    unfolding DisjointSets_merge_def f1 bindR_ok prod.case f2 r
    using lt by (auto simp: wrn_def union_par_def max_def min_def)
qed

lemma ds_inv_union:
  "ds_inv d \<Longrightarrow> rep_of (par d) x \<noteq> rep_of (par d) y \<Longrightarrow>
     ds_inv (d\<lparr>par := union_par (par d) x y, ds_k := k\<rparr>)"
  by (simp add: ds_inv_def par_inv_union)

lemma state_after_inv:
  assumes "ds_inv d"
  shows "\<exists>d'. state_after d c = Some d' \<and> ds_inv d' \<and> ds_n d' = ds_n d"
proof (cases c)
  case (Find x)
  show ?thesis
  proof (cases "x < ds_n d")
    case True
    then show ?thesis
      using assms Find by (simp add: DisjointSets_find_eq ok_def ds_inv_compress)
  next
    case False
    then show ?thesis
      using assms Find by (simp add: DisjointSets_find_out throw_def)
  qed
next
  case (Merge x y)
  show ?thesis
  proof (cases "x < ds_n d")
    case False
    then show ?thesis
      using assms Merge by (simp add: DisjointSets_find_out throw_def)
  next
    case x: True
    let ?d1 = "d\<lparr>par := compress (par d) x\<rparr>"
    have f1: "DisjointSets_find d x = Some (Inr (?d1, rep_of (par d) x))"
      using assms x by (simp add: DisjointSets_find_eq ok_def)
    have i1: "ds_inv ?d1" using assms by (rule ds_inv_compress)
    show ?thesis
    proof (cases "y < ds_n d")
      case False
      then have "DisjointSets_find ?d1 y = Some (Inl DomainError)"
        by (simp add: DisjointSets_find_out throw_def)
      then show ?thesis using Merge f1 i1 by simp
    next
      case y: True
      let ?d2 = "?d1\<lparr>par := compress (par ?d1) y\<rparr>"
      have f2: "DisjointSets_find ?d1 y = Some (Inr (?d2, rep_of (par ?d1) y))"
        using i1 y by (simp add: DisjointSets_find_eq ok_def)
      have i2: "ds_inv ?d2" using i1 by (rule ds_inv_compress)
      show ?thesis
      proof (cases "rep_of (par d) x = rep_of (par d) y")
        case True
        then have "DisjointSets_merge d x y = Some (Inl InvalidArgument)"
          using assms x y by (simp add: DisjointSets_merge_eq throw_def)
        then show ?thesis using Merge f1 f2 i2 by simp
      next
        case False
        then have "DisjointSets_merge d x y =
            Some (Inr (d\<lparr>par := union_par (par d) x y, ds_k := dec_ull (ds_k d)\<rparr>,
               min (rep_of (par d) x) (rep_of (par d) y)))"
          using assms x y by (simp add: DisjointSets_merge_eq ok_def)
        then show ?thesis using Merge f1 f2 ds_inv_union [OF assms False] by simp
      qed
    qed
  qed
qed

lemma ds_run_inv:
  assumes "ds_inv d"
  shows "\<exists>d'. ds_run d cs = Some d' \<and> ds_inv d' \<and> ds_n d' = ds_n d"
  using assms
proof (induction cs arbitrary: d)
  case Nil
  then show ?case by simp
next
  case (Cons c cs)
  from state_after_inv [OF Cons.prems, of c] obtain d1
    where 1: "state_after d c = Some d1" "ds_inv d1" "ds_n d1 = ds_n d" by blast
  from Cons.IH [OF 1(2)] 1 show ?case by simp
qed

lemma ds_inv_new: "ds_inv (DisjointSets_new n)"
  by (simp add: ds_inv_def par_inv_def DisjointSets_new_def)

lemma ds_run_new:
  "\<exists>d. ds_run (DisjointSets_new n) cs = Some d \<and> ds_inv d \<and> ds_n d = n"
  using ds_run_inv [OF ds_inv_new, of n cs] by (simp add: DisjointSets_new_def)


lemma DisjointSets_merge_out:
  assumes "ds_inv d" "\<not> (x < ds_n d \<and> y < ds_n d)"
  shows "DisjointSets_merge d x y = throw DomainError"
proof (cases "x < ds_n d")
  case False
  then show ?thesis by (simp add: DisjointSets_merge_def DisjointSets_find_out)
next
  case True
  then have "\<not> y < ds_n (d\<lparr>par := compress (par d) x\<rparr>)" using assms(2) by simp
  then show ?thesis
    using assms(1) True
    by (simp add: DisjointSets_merge_def DisjointSets_find_eq DisjointSets_find_out)
qed

lemma merge_facts:
  assumes inv: "ds_inv d" and m: "DisjointSets_merge d x y = ok (d', r)"
  shows "r = min (rep_of (par d) x) (rep_of (par d) y)"
    and "r < max (rep_of (par d) x) (rep_of (par d) y)"
    and "par d' ! max (rep_of (par d) x) (rep_of (par d) y) = r"
proof -
  have xy: "x < ds_n d \<and> y < ds_n d"
    using DisjointSets_merge_out [OF inv, of x y] m by auto
  have ne: "rep_of (par d) x \<noteq> rep_of (par d) y"
    using m xy inv by (auto simp: DisjointSets_merge_eq)
  have d': "d' = d\<lparr>par := union_par (par d) x y, ds_k := dec_ull (ds_k d)\<rparr>"
    and r: "r = min (rep_of (par d) x) (rep_of (par d) y)"
    using m xy inv ne by (simp_all add: DisjointSets_merge_eq)
  show "r = min (rep_of (par d) x) (rep_of (par d) y)" by (rule r)
  show "r < max (rep_of (par d) x) (rep_of (par d) y)" using r ne by (simp add: min_def max_def)
  have "max (rep_of (par d) x) (rep_of (par d) y) < length (compress (compress (par d) x) y)"
    using xy inv rep_of_less_length [of x "par d"] rep_of_less_length [of y "par d"]
    by (simp add: ds_inv_def max_def)
  then show "par d' ! max (rep_of (par d) x) (rep_of (par d) y) = r"
    by (simp add: d' union_par_def r)
qed

lemma find_facts:
  assumes inv: "ds_inv d" and f: "DisjointSets_find d x = ok (d', r)"
  shows "r = rep_of (par d) x"
    and "i < ds_n d \<Longrightarrow> par d' ! i = par d ! i \<or> (par d' ! i = r \<and> r \<le> i)"
proof -
  have x: "x < ds_n d"
    using DisjointSets_find_out [of d x] f by (cases "x < ds_n d") auto
  have d': "d' = d\<lparr>par := compress (par d) x\<rparr>" and r: "r = rep_of (par d) x"
    using f x inv by (simp_all add: DisjointSets_find_eq)
  show "r = rep_of (par d) x" by (rule r)
  show "par d' ! i = par d ! i \<or> (par d' ! i = r \<and> r \<le> i)" if "i < ds_n d"
  proof (cases "i \<in> set (path_of (par d) x)")
    case True
    then have "rep_of (par d) i = r" by (simp add: path_of_rep r)
    then show ?thesis
      using that inv True rep_of_le [of "par d" i] by (simp add: d' compress_nth ds_inv_def r)
  next
    case False
    then show ?thesis using that inv by (simp add: d' compress_nth ds_inv_def)
  qed
qed

text \<open>
  C4: after any sequence of calls of \<open>find\<close> and \<open>merge\<close> on a fresh \<open>DisjointSets\<close> object
  with \<open>n\<close> elements, whether the calls succeed or throw, every call has returned and
  \<open>par[i] \<le> i\<close> holds for every element.  In the state reached, a successful \<open>merge\<close> returns
  the smaller of the two roots and makes it the parent of the greater one, and a successful
  \<open>find\<close> leaves every parent as it was or replaces it by the root it returns, which is not
  greater than the element.
\<close>

theorem C4_parent_invariant:
  "\<exists>d. ds_run (DisjointSets_new n) cs = Some d \<and> ds_n d = n \<and> length (par d) = n
     \<and> (\<forall>i<n. par d ! i \<le> i)
     \<and> (\<forall>x y d' r. DisjointSets_merge d x y = ok (d', r) \<longrightarrow>
          r = min (rep_of (par d) x) (rep_of (par d) y) \<and>
          r < max (rep_of (par d) x) (rep_of (par d) y) \<and>
          par d' ! max (rep_of (par d) x) (rep_of (par d) y) = r)
     \<and> (\<forall>x d' r. DisjointSets_find d x = ok (d', r) \<longrightarrow>
          r = rep_of (par d) x \<and>
          (\<forall>i<n. par d' ! i = par d ! i \<or> (par d' ! i = r \<and> r \<le> i)))"
proof -
  from ds_run_new [of n cs] obtain d
    where d: "ds_run (DisjointSets_new n) cs = Some d" "ds_inv d" "ds_n d = n" by blast
  have "length (par d) = n" "\<forall>i<n. par d ! i \<le> i"
    using d(2,3) by (auto simp: ds_inv_def par_inv_def)
  moreover have "\<forall>x y d' r. DisjointSets_merge d x y = ok (d', r) \<longrightarrow>
          r = min (rep_of (par d) x) (rep_of (par d) y) \<and>
          r < max (rep_of (par d) x) (rep_of (par d) y) \<and>
          par d' ! max (rep_of (par d) x) (rep_of (par d) y) = r"
    using merge_facts [OF d(2)] by blast
  moreover have "\<forall>x d' r. DisjointSets_find d x = ok (d', r) \<longrightarrow>
          r = rep_of (par d) x \<and>
          (\<forall>i<n. par d' ! i = par d ! i \<or> (par d' ! i = r \<and> r \<le> i))"
    using find_facts [OF d(2)] d(3) by blast
  ultimately show ?thesis using d(1,3) by blast
qed

theorem C4_parent_invariant_witness:
  "ds_run (DisjointSets_new 4) [Merge 2 3, Merge 1 3, Find 3, Merge 0 7, Merge 1 2]
     = Some \<lparr>ds_n = 4, ds_k = 2, par = [0, 1, 1, 1]\<rparr>
   \<and> par \<lparr>ds_n = 4, ds_k = 2, par = [0, 1, 1, 1]\<rparr> ! 0 \<le> 0
   \<and> par \<lparr>ds_n = 4, ds_k = 2, par = [0, 1, 1, 1]\<rparr> ! 1 \<le> 1
   \<and> par \<lparr>ds_n = 4, ds_k = 2, par = [0, 1, 1, 1]\<rparr> ! 2 \<le> 2
   \<and> par \<lparr>ds_n = 4, ds_k = 2, par = [0, 1, 1, 1]\<rparr> ! 3 \<le> 3"
proof -
  let ?cs = "[Merge 2 3, Merge 1 3, Find 3, Merge 0 7, Merge 1 2]"
  let ?D = "\<lparr>ds_n = 4, ds_k = 2, par = [0, 1, 1, 1]\<rparr>"
  have run: "ds_run (DisjointSets_new 4) ?cs = Some ?D"
    by code_simp
  from C4_parent_invariant [of 4 ?cs] obtain d
    where "ds_run (DisjointSets_new 4) ?cs = Some d" and le: "\<forall>i<4. par d ! i \<le> i"
    by blast
  then have "d = ?D" using run by simp
  then have "\<forall>i<4. par ?D ! i \<le> i" using le by simp
  then show ?thesis using run by simp
qed

text \<open>
  C9: in every state of a \<open>DisjointSets\<close> object with \<open>n\<close> elements and for every \<open>x < n\<close>,
  \<open>find(x)\<close> returns the root of \<open>x\<close>, which is its own parent; afterwards every node that
  was on the path from \<open>x\<close> to the root has the root as its parent and every other parent is
  unchanged; a second \<open>find(x)\<close> returns the same root and leaves the parent array as it is,
  and its path has at most two nodes, \<open>x\<close> and the root, that is, at most one parent link.
\<close>

theorem C9_find_compresses:
  assumes "ds_run (DisjointSets_new n) cs = Some d" and "x < n"
  shows "\<exists>d'. DisjointSets_find d x = ok (d', rep_of (par d) x)
     \<and> last (path_of (par d) x) = rep_of (par d) x
     \<and> par d ! rep_of (par d) x = rep_of (par d) x
     \<and> (\<forall>y\<in>set (path_of (par d) x). par d' ! y = rep_of (par d) x)
     \<and> (\<forall>y<n. y \<notin> set (path_of (par d) x) \<longrightarrow> par d' ! y = par d ! y)
     \<and> DisjointSets_find d' x = ok (d', rep_of (par d) x)
     \<and> length (path_of (par d') x) \<le> 2"
proof -
  from ds_run_new [of n cs] assms(1)
  have inv: "ds_inv d" and n: "ds_n d = n" by auto
  then have len: "length (par d) = n" and pinv: "par_inv (par d)"
    by (simp_all add: ds_inv_def)
  let ?r = "rep_of (par d) x"
  let ?d' = "d\<lparr>par := compress (par d) x\<rparr>"
  have inv': "ds_inv ?d'" using inv by (rule ds_inv_compress)
  have 1: "DisjointSets_find d x = ok (?d', ?r)"
    using inv assms(2) n by (simp add: DisjointSets_find_eq)
  have 2: "par d ! ?r = ?r"
    using pinv assms(2) len by (simp add: rep_of_root)
  have le: "y < n" if "y \<in> set (path_of (par d) x)" for y
    using path_of_le [OF that] assms(2) by simp
  have 3: "\<forall>y\<in>set (path_of (par d) x). par ?d' ! y = ?r"
    using le len by (simp add: compress_nth)
  have 4: "\<forall>y<n. y \<notin> set (path_of (par d) x) \<longrightarrow> par ?d' ! y = par d ! y"
    using len by (simp add: compress_nth)
  define q where "q = compress (par d) x"
  have q: "par ?d' = q" "length q = n" "par_inv q"
    using len pinv by (simp_all add: q_def par_inv_compress)
  have x: "q ! x = ?r"
    using 3 path_of_hd [of x "par d"] q(1) by auto
  have rlt: "?r < n"
    using rep_of_less_length [of x "par d"] assms(2) len by simp
  have r: "q ! ?r = ?r"
    using rep_of_root [OF q(3), of x] q(2) assms(2) pinv
    by (simp add: q_def rep_of_compress)
  have rr: "rep_of q x = ?r"
    using pinv by (simp add: q_def rep_of_compress)
  have p: "path_of q x = (if ?r = x then [x] else [x, ?r])"
  proof (cases "?r = x")
    case True
    then show ?thesis using x by (simp add: path_of_stop)
  next
    case False
    then have lt: "?r < x" using rep_of_le [of "par d" x] by simp
    then show ?thesis using x r assms(2) q(2) by (simp add: path_of_step path_of_stop)
  qed
  have c: "compress q x = q"
  proof (intro nth_equalityI)
    show "length (compress q x) = length q" by simp
  next
    fix i
    assume "i < length (compress q x)"
    then have "i < length q" by simp
    then show "compress q x ! i = q ! i"
      using x r by (auto simp: compress_nth p rr split: if_splits)
  qed
  have 5: "DisjointSets_find ?d' x = ok (?d', ?r)"
    using DisjointSets_find_eq [OF inv', of x] assms(2) n
    by (simp add: q(1) c rr)
  have 6: "length (path_of (par ?d') x) \<le> 2"
    by (simp add: q(1) p)
  show ?thesis
    using 1 2 3 4 5 6 path_of_last [of "par d" x] by blast
qed

theorem C9_find_compresses_witness:
  "ds_run (DisjointSets_new 4) [Merge 2 3, Merge 1 3] = Some \<lparr>ds_n = 4, ds_k = 2, par = [0, 1, 1, 2]\<rparr>
   \<and> (3::nat) < 4
   \<and> path_of [0, 1, 1, 2] 3 = [3, 2, 1]
   \<and> rep_of [0, 1, 1, 2] 3 = 1
   \<and> DisjointSets_find \<lparr>ds_n = 4, ds_k = 2, par = [0, 1, 1, 2]\<rparr> 3
       = ok (\<lparr>ds_n = 4, ds_k = 2, par = [0, 1, 1, 1]\<rparr>, 1)
   \<and> DisjointSets_find \<lparr>ds_n = 4, ds_k = 2, par = [0, 1, 1, 1]\<rparr> 3
       = ok (\<lparr>ds_n = 4, ds_k = 2, par = [0, 1, 1, 1]\<rparr>, 1)
   \<and> path_of [0, 1, 1, 1] 3 = [3, 1]"
proof -
  let ?D = "\<lparr>ds_n = 4, ds_k = 2, par = [0, 1, 1, 2]\<rparr>"
  let ?D' = "\<lparr>ds_n = 4, ds_k = 2, par = [0, 1, 1, 1]\<rparr>"
  have run: "ds_run (DisjointSets_new 4) [Merge 2 3, Merge 1 3] = Some ?D" by code_simp
  have lt: "(3::nat) < 4" by simp
  have p: "path_of [0, 1, 1, 2] 3 = [3, 2, 1]" "rep_of [0, 1, 1, 2] 3 = 1"
    "path_of [0, 1, 1, 1] 3 = [3, 1]"
    by code_simp+
  have f: "DisjointSets_find ?D 3 = ok (?D', 1)" by code_simp
  from C9_find_compresses [OF run lt] obtain d'
    where "DisjointSets_find ?D 3 = ok (d', rep_of (par ?D) 3)"
      and "DisjointSets_find d' 3 = ok (d', rep_of (par ?D) 3)"
    by blast
  then have "DisjointSets_find ?D' 3 = ok (?D', 1)" using f p by simp
  then show ?thesis using run lt p f by blast
qed

section \<open>The disjoint sets with sizes\<close>

lemma root_iff: "par_inv p \<Longrightarrow> r < length p \<Longrightarrow> p ! r = r \<longleftrightarrow> rep_of p r = r"
  using rep_of_root [of p r] by (auto simp: rep_of_fixed)

lemma class_of_cong: "length q = length p \<Longrightarrow> (\<And>z. rep_of q z = rep_of p z) \<Longrightarrow> class_of q x = class_of p x"
  by (simp add: class_of_def)

lemma same_sets_refl: "gds_inv d \<Longrightarrow> same_sets d d"
  by (simp add: same_sets_def)

lemma same_sets_trans: "same_sets d d1 \<Longrightarrow> same_sets d1 d2 \<Longrightarrow> same_sets d d2"
  by (simp add: same_sets_def)

lemma same_sets_roots:
  assumes "gds_inv d" "same_sets d d'" "r < ds_n d"
  shows "par d' ! r = r \<longleftrightarrow> par d ! r = r"
proof -
  have "par_inv (par d)" "length (par d) = ds_n d" "par_inv (par d')" "length (par d') = ds_n d"
    using assms(1,2) by (simp_all add: gds_inv_def ds_inv_def same_sets_def)
  then show ?thesis
    using assms(2,3) by (simp add: root_iff same_sets_def)
qed

lemma same_sets_sizes:
  assumes "gds_inv d" "same_sets d d'"
  shows "set_sizes d' = set_sizes d"
proof -
  have "filter (\<lambda>r. par d' ! r = r) [0..<ds_n d] = filter (\<lambda>r. par d ! r = r) [0..<ds_n d]"
    using same_sets_roots [OF assms] by (intro filter_cong) simp_all
  then show ?thesis
    using assms(2) by (simp add: set_sizes_def same_sets_def)
qed

lemma same_sets_compress:
  assumes "gds_inv d"
  shows "same_sets d (d\<lparr>par := compress (par d) x\<rparr>)"
proof -
  have inv: "par_inv (par d)" and len: "length (par d) = ds_n d"
    using assms by (simp_all add: gds_inv_def ds_inv_def)
  have rep: "rep_of (compress (par d) x) z = rep_of (par d) z" for z
    using inv by (rule rep_of_compress)
  have cls: "class_of (compress (par d) x) r = class_of (par d) r" for r
    by (rule class_of_cong) (simp_all add: rep)
  have root: "compress (par d) x ! r = r \<longleftrightarrow> par d ! r = r" if "r < ds_n d" for r
    using that inv len par_inv_compress [OF inv, of x] by (simp add: root_iff rep)
  have "gds_inv (d\<lparr>par := compress (par d) x\<rparr>)"
    using assms ds_inv_compress [of d x] by (simp add: gds_inv_def cls root)
  then show ?thesis by (simp add: same_sets_def rep)
qed

lemma get_count_eq:
  assumes "gds_inv d" "x < ds_n d"
  shows "get_count d x = ok (d\<lparr>par := compress (par d) x\<rparr>, cnt d ! rep_of (par d) x)"
proof -
  have "ds_inv d" "length (cnt d) = ds_n d" "length (par d) = ds_n d"
    using assms(1) by (simp_all add: gds_inv_def ds_inv_def)
  then show ?thesis
    using assms(2) rep_of_less_length [of x "par d"]
    by (simp add: get_count_def DisjointSets_find_eq rdn_def)
qed

lemma get_count_out: "\<not> x < ds_n d \<Longrightarrow> get_count d x = throw DomainError"
  by (simp add: get_count_def DisjointSets_find_out)

lemma get_count_ok:
  assumes "gds_inv d" "get_count d x = ok (d', c)"
  shows "same_sets d d'" "x < ds_n d" "c = cnt d ! rep_of (par d) x"
proof -
  show x: "x < ds_n d" using assms(2) get_count_out [of x d] by (cases "x < ds_n d") auto
  show "same_sets d d'" "c = cnt d ! rep_of (par d) x"
    using assms x same_sets_compress [of d x] by (auto simp: get_count_eq)
qed

lemma genie_walk_post:
  assumes "genie_walk g m = Some r"
  shows "\<forall>g1. r = Inr g1 \<longrightarrow> gds_inv (ds g) \<longrightarrow> walk_post g m g1"
proof (rule genie_walk.raw_induct
    [where P = "\<lambda>g m r. \<forall>g1. r = Inr g1 \<longrightarrow> gds_inv (ds g) \<longrightarrow> walk_post g m g1", OF _ assms])
  fix walk :: "'a CGenie \<Rightarrow> int \<Rightarrow> 'a CGenie res" and g :: "'a CGenie" and m r
  assume IH: "\<And>g m r. walk g m = Some r \<Longrightarrow>
      \<forall>g1. r = Inr g1 \<longrightarrow> gds_inv (ds g) \<longrightarrow> walk_post g m g1"
  assume body: "bindR (rd (mst_i g) (2 * lastidx g + 0)) (\<lambda>u.
     bindR (rd (denoise_index_rev g) u) (\<lambda>ru.
     bindR (get_count (ds g) (to_ull ru)) (\<lambda>(d1, c1).
       if int c1 \<noteq> m then
         bindR (rd (mst_i g) (2 * lastidx g + 1)) (\<lambda>v.
         bindR (rd (denoise_index_rev g) v) (\<lambda>rv.
         bindR (get_count d1 (to_ull rv)) (\<lambda>(d2, c2).
           if int c2 \<noteq> m then
             bindR (rd (next_edge g) (lastidx g)) (\<lambda>nx.
             walk (g\<lparr>ds := d2, lastidx := nx\<rparr>) m)
           else ok (g\<lparr>ds := d2\<rparr>))))
       else ok (g\<lparr>ds := d1\<rparr>)))) = Some r"
  show "\<forall>g1. r = Inr g1 \<longrightarrow> gds_inv (ds g) \<longrightarrow> walk_post g m g1"
  proof (intro allI impI)
    fix g1
    assume r: "r = Inr g1" and inv: "gds_inv (ds g)"
    from body [unfolded r, folded ok_def] obtain u ru d1 c1
      where u: "rd (mst_i g) (2 * lastidx g + 0) = ok u"
        and ru: "rd (denoise_index_rev g) u = ok ru"
        and c1: "get_count (ds g) (to_ull ru) = ok (d1, c1)"
        and rest1: "(if int c1 \<noteq> m
              then bindR (rd (mst_i g) (2 * lastidx g + 1))
                     (\<lambda>v. bindR (rd (denoise_index_rev g) v)
                       (\<lambda>rv. bindR (get_count d1 (to_ull rv))
                         (\<lambda>(d2, c2).
                           if int c2 \<noteq> m
                           then bindR (rd (next_edge g) (lastidx g))
                                  (\<lambda>nx. walk (g\<lparr>ds := d2, lastidx := nx\<rparr>) m)
                           else ok (g\<lparr>ds := d2\<rparr>))))
              else ok (g\<lparr>ds := d1\<rparr>)) = ok g1"
      by (auto simp: bindR_eq_ok)
    note g1 = get_count_ok [OF inv c1]
    show "walk_post g m g1"
    proof (cases "int c1 = m")
      case True
      then have "g1 = g\<lparr>ds := d1\<rparr>" using rest1 by simp
      then show ?thesis
        unfolding walk_post_def using g1 u ru True by auto
    next
      case False
      from rest1 False obtain v rv d2 c2
        where v: "rd (mst_i g) (2 * lastidx g + 1) = ok v"
          and rv: "rd (denoise_index_rev g) v = ok rv"
          and c2: "get_count d1 (to_ull rv) = ok (d2, c2)"
          and rest2: "(if int c2 \<noteq> m
                           then bindR (rd (next_edge g) (lastidx g))
                                  (\<lambda>nx. walk (g\<lparr>ds := d2, lastidx := nx\<rparr>) m)
                           else ok (g\<lparr>ds := d2\<rparr>)) = ok g1"
        by (auto simp: bindR_eq_ok)
      have inv1: "gds_inv d1" using g1(1) by (simp add: same_sets_def)
      note g2 = get_count_ok [OF inv1 c2]
      have s2: "same_sets (ds g) d2" using g1(1) g2(1) by (rule same_sets_trans)
      have eq2: "ds_n d1 = ds_n (ds g)" "cnt d1 = cnt (ds g)"
        "rep_of (par d1) z = rep_of (par (ds g)) z" for z
        using g1(1) by (simp_all add: same_sets_def)
      show ?thesis
      proof (cases "int c2 = m")
        case True
        then have "g1 = g\<lparr>ds := d2\<rparr>" using rest2 by simp
        then show ?thesis
          unfolding walk_post_def using s2 g2 v rv True eq2 by auto
      next
        case c2m: False
        from rest2 c2m obtain nx
          where nx: "rd (next_edge g) (lastidx g) = ok nx"
            and w: "walk (g\<lparr>ds := d2, lastidx := nx\<rparr>) m = ok g1"
          by (auto simp: bindR_eq_ok)
        have "gds_inv (ds (g\<lparr>ds := d2, lastidx := nx\<rparr>))"
          using s2 by (simp add: same_sets_def)
        then have post: "walk_post (g\<lparr>ds := d2, lastidx := nx\<rparr>) m g1"
          using IH [of "g\<lparr>ds := d2, lastidx := nx\<rparr>" m "Inr g1"] w by (simp add: ok_def)
        have eq: "ds_n d2 = ds_n (ds g)" "cnt d2 = cnt (ds g)"
          "rep_of (par d2) z = rep_of (par (ds g)) z" for z
          using s2 by (simp_all add: same_sets_def)
        show ?thesis
          using post s2 unfolding walk_post_def
          by (auto simp: eq intro: same_sets_trans)
      qed
    qed
  qed
qed


lemma class_of_rep: "par_inv p \<Longrightarrow> class_of p (rep_of p x) = class_of p x"
  by (simp add: class_of_def rep_of_idem)

lemma cnt_class:
  assumes "gds_inv d" "x < ds_n d"
  shows "cnt d ! rep_of (par d) x = card (class_of (par d) x)"
proof -
  have inv: "par_inv (par d)" and len: "length (par d) = ds_n d"
    using assms(1) by (simp_all add: gds_inv_def ds_inv_def)
  have "rep_of (par d) x < ds_n d" "par d ! rep_of (par d) x = rep_of (par d) x"
    using assms(2) inv len rep_of_less_length [of x "par d"] by (simp_all add: rep_of_root)
  then have "cnt d ! rep_of (par d) x = card (class_of (par d) (rep_of (par d) x))"
    using assms(1) by (simp add: gds_inv_def)
  then show ?thesis using inv by (simp add: class_of_rep)
qed

lemma smallest_le:
  assumes "gds_inv d" "x < ds_n d"
  shows "get_smallest_count d \<le> cnt d ! rep_of (par d) x"
proof -
  have inv: "par_inv (par d)" and len: "length (par d) = ds_n d"
    using assms(1) by (simp_all add: gds_inv_def ds_inv_def)
  have "rep_of (par d) x < ds_n d" "par d ! rep_of (par d) x = rep_of (par d) x"
    using assms(2) inv len rep_of_less_length [of x "par d"] by (simp_all add: rep_of_root)
  then have mem: "cnt d ! rep_of (par d) x \<in> set (set_sizes d)"
    by (auto simp: set_sizes_def)
  have srt: "sorted (set_sizes d)" by (simp add: set_sizes_def)
  show ?thesis
  proof (cases "set_sizes d")
    case Nil
    then show ?thesis using mem by simp
  next
    case (Cons s ss)
    then show ?thesis using mem srt by (auto simp: get_smallest_count_def)
  qed
qed

lemma CGiniDisjointSets_merge_out:
  assumes "gds_inv d" "\<not> (x < ds_n d \<and> y < ds_n d)"
  shows "CGiniDisjointSets_merge d x y = throw DomainError"
proof (cases "x < ds_n d")
  case False
  then show ?thesis by (simp add: CGiniDisjointSets_merge_def DisjointSets_find_out)
next
  case True
  then have "\<not> y < ds_n (d\<lparr>par := compress (par d) x\<rparr>)" using assms(2) by simp
  then show ?thesis
    using assms(1) True
    by (simp add: CGiniDisjointSets_merge_def DisjointSets_find_eq DisjointSets_find_out gds_inv_def)
qed

text \<open>The sizes after a union: the smaller root gets the sum.\<close>

lemma CGiniDisjointSets_merge_eq:
  assumes "gds_inv d" "x < ds_n d" "y < ds_n d"
  shows "CGiniDisjointSets_merge d x y =
     (if rep_of (par d) x = rep_of (par d) y then throw InvalidArgument
      else ok (d\<lparr>par := union_par (par d) x y, ds_k := dec_ull (ds_k d),
                 cnt := (cnt d)[min (rep_of (par d) x) (rep_of (par d) y) :=
                    cnt d ! min (rep_of (par d) x) (rep_of (par d) y)
                    + cnt d ! max (rep_of (par d) x) (rep_of (par d) y)]\<rparr>,
               min (rep_of (par d) x) (rep_of (par d) y)))"
proof -
  have dinv: "ds_inv d" and inv: "par_inv (par d)" and len: "length (par d) = ds_n d"
    and lenc: "length (cnt d) = ds_n d"
    using assms(1) by (simp_all add: gds_inv_def ds_inv_def)
  let ?d1 = "d\<lparr>par := compress (par d) x\<rparr>"
  have f1: "DisjointSets_find d x = ok (?d1, rep_of (par d) x)"
    using dinv assms(2) by (simp add: DisjointSets_find_eq)
  have "ds_inv ?d1" using dinv by (rule ds_inv_compress)
  then have f2: "DisjointSets_find ?d1 y =
      ok (?d1\<lparr>par := compress (par ?d1) y\<rparr>, rep_of (par ?d1) y)"
    using assms(3) by (intro DisjointSets_find_eq) simp_all
  have r: "rep_of (par ?d1) y = rep_of (par d) y"
    using inv by (simp add: rep_of_compress)
  have lt: "rep_of (par d) x < ds_n d" "rep_of (par d) y < ds_n d"
    using rep_of_less_length [of x "par d"] rep_of_less_length [of y "par d"] assms(2,3) len
    by simp_all
  show ?thesis
    unfolding CGiniDisjointSets_merge_def f1 bindR_ok prod.case f2 r
    using lt len lenc by (auto simp: wrn_def rdn_def union_par_def max_def min_def)
qed

lemma class_of_union:
  assumes "par_inv p" "x < length p" "y < length p" "rep_of p x \<noteq> rep_of p y"
  shows "class_of (union_par p x y) z =
     (if rep_of p z = rep_of p x \<or> rep_of p z = rep_of p y then class_of p x \<union> class_of p y
      else class_of p z)"
  using assms(4)
  by (auto simp: class_of_def rep_of_union [OF assms] max_def min_def split: if_splits)

lemma class_of_disjoint: "rep_of p x \<noteq> rep_of p y \<Longrightarrow> class_of p x \<inter> class_of p y = {}"
  by (auto simp: class_of_def)

lemma finite_class_of [simp]: "finite (class_of p x)"
  by (simp add: class_of_def)

lemma gds_inv_merge:
  assumes inv: "gds_inv d" and xy: "x < ds_n d" "y < ds_n d"
    and ne: "rep_of (par d) x \<noteq> rep_of (par d) y"
  shows "gds_inv (d\<lparr>par := union_par (par d) x y, ds_k := k,
                 cnt := (cnt d)[min (rep_of (par d) x) (rep_of (par d) y) :=
                    cnt d ! min (rep_of (par d) x) (rep_of (par d) y)
                    + cnt d ! max (rep_of (par d) x) (rep_of (par d) y)]\<rparr>)"
proof -
  let ?p = "par d" and ?q = "union_par (par d) x y"
  let ?a = "min (rep_of ?p x) (rep_of ?p y)" and ?b = "max (rep_of ?p x) (rep_of ?p y)"
  have dinv: "ds_inv d" and pinv: "par_inv ?p" and len: "length ?p = ds_n d"
    and lenc: "length (cnt d) = ds_n d"
    using inv by (simp_all add: gds_inv_def ds_inv_def)
  have xy': "x < length ?p" "y < length ?p" using xy len by simp_all
  have qinv: "par_inv ?q" using pinv ne by (rule par_inv_union)
  have rep: "rep_of ?q z = (if rep_of ?p z = ?b then ?a else rep_of ?p z)" for z
    using rep_of_union [OF pinv xy' ne] by simp
  have ab: "?a < ds_n d" "?b < ds_n d" "?a \<noteq> ?b"
    using rep_of_less_length [OF xy'(1)] rep_of_less_length [OF xy'(2)] len ne
    by (simp_all add: min_def max_def)
  have sum: "cnt d ! ?a + cnt d ! ?b = card (class_of ?p x \<union> class_of ?p y)"
  proof -
    have "cnt d ! rep_of ?p x + cnt d ! rep_of ?p y = card (class_of ?p x) + card (class_of ?p y)"
      using cnt_class [OF inv] xy by simp
    also have "\<dots> = card (class_of ?p x \<union> class_of ?p y)"
      using class_of_disjoint [OF ne] by (simp add: card_Un_disjoint)
    finally show ?thesis by (simp add: min_def max_def add.commute)
  qed
  have cnt: "(cnt d)[?a := cnt d ! ?a + cnt d ! ?b] ! r = card (class_of ?q r)"
    if r: "r < ds_n d" "?q ! r = r" for r
  proof -
    have rr: "rep_of ?q r = r" using r qinv len by (simp add: rep_of_fixed)
    have ra: "rep_of ?p ?a = ?a"
      using pinv by (simp add: min_def rep_of_idem)
    have rb: "rep_of ?p r \<noteq> ?b"
    proof
      assume b: "rep_of ?p r = ?b"
      then have "r = ?a" using rep [of r] rr by simp
      then show False using b ra ab(3) by simp
    qed
    then have rp: "rep_of ?p r = r" using rep [of r] rr by simp
    then have root: "?p ! r = r" using pinv r(1) len by (simp add: root_iff)
    show ?thesis
    proof (cases "r = ?a")
      case True
      then have "rep_of ?p r = rep_of ?p x \<or> rep_of ?p r = rep_of ?p y"
        using rp by (auto simp: min_def)
      then show ?thesis
        using True ab lenc sum by (simp add: class_of_union [OF pinv xy' ne])
    next
      case False
      then have "\<not> (rep_of ?p r = rep_of ?p x \<or> rep_of ?p r = rep_of ?p y)"
        using rp rb by (auto simp: min_def max_def split: if_splits)
      then have "class_of ?q r = class_of ?p r"
        by (simp add: class_of_union [OF pinv xy' ne])
      then show ?thesis
        using False inv r(1) root by (simp add: gds_inv_def)
    qed
  qed
  show ?thesis
    using dinv qinv len lenc cnt by (simp add: gds_inv_def ds_inv_def)
qed

lemma CGiniDisjointSets_merge_ok:
  assumes "gds_inv d" "CGiniDisjointSets_merge d x y = ok (d', r)"
  shows "x < ds_n d" "y < ds_n d" "rep_of (par d) x \<noteq> rep_of (par d) y"
    "gds_inv d'" "ds_n d' = ds_n d" "par d' = union_par (par d) x y"
proof -
  show xy: "x < ds_n d" "y < ds_n d"
    using CGiniDisjointSets_merge_out [OF assms(1), of x y] assms(2) by auto
  show ne: "rep_of (par d) x \<noteq> rep_of (par d) y"
    using assms xy by (auto simp: CGiniDisjointSets_merge_eq)
  show "gds_inv d'" "ds_n d' = ds_n d" "par d' = union_par (par d) x y"
    using assms xy ne gds_inv_merge [OF assms(1) xy ne]
    by (auto simp: CGiniDisjointSets_merge_eq)
qed

lemma rep_of_upt: "rep_of [0..<n] z = z"
  by (subst rep_of.simps) auto

lemma gds_inv_new: "gds_inv (CGiniDisjointSets_new n)"
proof -
  have "class_of [0..<n] r = {r}" if "r < n" for r
    using that by (auto simp: class_of_def rep_of_upt)
  then show ?thesis
    by (simp add: gds_inv_def ds_inv_def par_inv_def CGiniDisjointSets_new_def)
qed


section \<open>The merge driver\<close>

lemma walk_post_fields:
  assumes "walk_post g m g1"
  shows "mst_i g1 = mst_i g" "denoise_index_rev g1 = denoise_index_rev g"
    "next_edge g1 = next_edge g" "prev_edge g1 = prev_edge g" "curidx g1 = curidx g"
    "cg_n g1 = cg_n g" "noise_count g1 = noise_count g" "denoise_index g1 = denoise_index g"
proof -
  have eq: "g1 = g\<lparr>ds := ds g1, lastidx := lastidx g1\<rparr>"
    using assms by (simp add: walk_post_def)
  show "mst_i g1 = mst_i g" by (subst eq) simp
  show "denoise_index_rev g1 = denoise_index_rev g" by (subst eq) simp
  show "next_edge g1 = next_edge g" by (subst eq) simp
  show "prev_edge g1 = prev_edge g" by (subst eq) simp
  show "curidx g1 = curidx g" by (subst eq) simp
  show "cg_n g1 = cg_n g" by (subst eq) simp
  show "noise_count g1 = noise_count g" by (subst eq) simp
  show "denoise_index g1 = denoise_index g" by (subst eq) simp
qed

lemma genie_branch_post:
  assumes inv: "gds_inv (ds g)" and br: "genie_branch g lastm = ok (g2, i1, i2, m)"
  shows "m = int (get_smallest_count (ds g))"
    and "same_sets (ds g) (ds g2)"
    and "denoise_index_rev g2 = denoise_index_rev g"
    and "\<exists>e re. (e = i1 \<or> e = i2) \<and> rd (denoise_index_rev g) e = ok re \<and>
           to_ull re < ds_n (ds g) \<and> int (cnt (ds g) ! rep_of (par (ds g)) (to_ull re)) = m"
proof -
  define g0 where "g0 = (if int (get_smallest_count (ds g)) \<noteq> lastm \<or> lastidx g < curidx g
      then g\<lparr>lastidx := curidx g\<rparr> else g)"
  have g0: "ds g0 = ds g" "mst_i g0 = mst_i g" "denoise_index_rev g0 = denoise_index_rev g"
    by (simp_all add: g0_def)
  from br obtain g1
    where w: "genie_walk g0 (int (get_smallest_count (ds g))) = ok g1"
      and i1: "rd (mst_i g1) (2 * lastidx g1 + 0) = ok i1"
      and i2: "rd (mst_i g1) (2 * lastidx g1 + 1) = ok i2"
      and upd: "(if lastidx g1 = curidx g1 then
                 bindR (rd (next_edge g1) (curidx g1)) (\<lambda>c.
                 ok (g1\<lparr>curidx := c, lastidx := c\<rparr>))
               else
                 bindR (rd (prev_edge g1) (lastidx g1)) (\<lambda>previdx.
                 bindR (rd (next_edge g1) (lastidx g1)) (\<lambda>l.
                 bindR (wr (next_edge g1) previdx l) (\<lambda>ne.
                 bindR (wr (prev_edge g1) l previdx) (\<lambda>pe.
                 ok (g1\<lparr>lastidx := l, next_edge := ne, prev_edge := pe\<rparr>)))))) = ok g2"
      and m: "m = int (get_smallest_count (ds g))"
    unfolding genie_branch_def Let_def g0_def [symmetric]
    by (auto simp: bindR_eq_ok)
  have post: "walk_post g0 m g1"
    using genie_walk_post [of g0 m "Inr g1"] w inv g0(1) m by (simp add: ok_def)
  have g1: "mst_i g1 = mst_i g" "denoise_index_rev g1 = denoise_index_rev g"
    using walk_post_fields [OF post] g0 by simp_all
  have g2: "ds g2 = ds g1" "denoise_index_rev g2 = denoise_index_rev g1"
    using upd by (auto simp: bindR_eq_ok split: if_splits)
  show "m = int (get_smallest_count (ds g))" by (rule m)
  show "same_sets (ds g) (ds g2)" using post g0 g2 by (simp add: walk_post_def)
  show "denoise_index_rev g2 = denoise_index_rev g" using g1 g2 by simp
  show "\<exists>e re. (e = i1 \<or> e = i2) \<and> rd (denoise_index_rev g) e = ok re \<and>
           to_ull re < ds_n (ds g) \<and> int (cnt (ds g) ! rep_of (par (ds g)) (to_ull re)) = m"
    using post i1 i2 unfolding walk_post_def g0 g1 by auto
qed


lemma single_branch_post:
  assumes "single_branch g lastm = ok (g1, i1, i2, lastm1)"
  shows "ds g1 = ds g" "denoise_index_rev g1 = denoise_index_rev g" "lastm1 = lastm"
  using assms by (auto simp: single_branch_def bindR_eq_ok)

lemma genie_merge_post:
  assumes inv: "gds_inv (ds g1)" and mg: "genie_merge g1 i1 i2 = ok g2"
  shows "\<exists>x y. rd (denoise_index_rev g1) i1 = ok x \<and> rd (denoise_index_rev g1) i2 = ok y \<and>
      to_ull x < ds_n (ds g1) \<and> to_ull y < ds_n (ds g1) \<and>
      rep_of (par (ds g1)) (to_ull x) \<noteq> rep_of (par (ds g1)) (to_ull y) \<and>
      gds_inv (ds g2) \<and> ds_n (ds g2) = ds_n (ds g1) \<and>
      par (ds g2) = union_par (par (ds g1)) (to_ull x) (to_ull y)"
proof -
  from mg obtain x y d r
    where x: "rd (denoise_index_rev g1) i1 = ok x" and y: "rd (denoise_index_rev g1) i2 = ok y"
      and m: "CGiniDisjointSets_merge (ds g1) (to_ull x) (to_ull y) = ok (d, r)"
      and g2: "g2 = g1\<lparr>ds := d\<rparr>"
    by (auto simp: genie_merge_def bindR_eq_ok)
  show ?thesis
    using CGiniDisjointSets_merge_ok [OF inv m] x y g2 by auto
qed

lemma genie_iter_inv:
  assumes inv: "gds_inv (ds g)" and it: "genie_iter thr i (g, lastm) = ok (g', lastm')"
  shows "gds_inv (ds g')"
proof -
  from it obtain g1 i1 i2
    where br: "(if get_gini (ds g) > thr then genie_branch g lastm else single_branch g lastm)
        = ok (g1, i1, i2, lastm')"
      and mg: "genie_merge g1 i1 i2 = ok g'"
    by (auto simp: genie_iter_def bindR_eq_ok)
  have "gds_inv (ds g1)"
  proof (cases "get_gini (ds g) > thr")
    case True
    then show ?thesis using genie_branch_post(2) [OF inv] br by (simp add: same_sets_def)
  next
    case False
    then show ?thesis using single_branch_post(1) [of g lastm g1 i1 i2 lastm'] br inv by simp
  qed
  then show ?thesis using genie_merge_post [OF _ mg] by blast
qed

lemma genie_run_inv:
  assumes "forM is (genie_iter thr) (g0\<lparr>ds := CGiniDisjointSets_new N\<rparr>, 0) = ok (g, lastm)"
  shows "gds_inv (ds g)"
proof -
  have "gds_inv (ds (fst (g, lastm)))"
  proof (rule forM_partial [OF assms, where P = "\<lambda>s. gds_inv (ds (fst s))"])
    show "gds_inv (ds (fst (g0\<lparr>ds := CGiniDisjointSets_new N\<rparr>, 0::int)))"
      by (simp add: gds_inv_new)
  next
    fix i and s t :: "'a CGenie \<times> int"
    assume "genie_iter thr i s = ok t" "gds_inv (ds (fst s))"
    then show "gds_inv (ds (fst t))"
      using genie_iter_inv [of "fst s" thr i "snd s" "fst t" "snd t"] by simp
  qed
  then show ?thesis by simp
qed

text \<open>
  The state \<open>(g, lastm)\<close> at the start of any iteration of the loop of \<open>do_genie\<close>, for
  any engine and any threshold: if the Gini index exceeds the threshold and the iteration
  completes, the Genie branch chose the edge, the merge joins two different sets, and the
  smaller of them has the smallest size present before the merge.
\<close>

lemma genie_branch_smallest:
  assumes run: "forM [0..j - 1] (genie_iter thr) (g0\<lparr>ds := CGiniDisjointSets_new N\<rparr>, 0) = ok (g, lastm)"
    and gini: "get_gini (ds g) > thr"
    and iter: "genie_iter thr j (g, lastm) = ok (g', lastm')"
  shows "\<exists>g1 i1 i2 x y.
      genie_branch g lastm = ok (g1, i1, i2, lastm') \<and>
      rd (denoise_index_rev g) i1 = ok x \<and> rd (denoise_index_rev g) i2 = ok y \<and>
      to_ull x < ds_n (ds g) \<and> to_ull y < ds_n (ds g) \<and>
      class_of (par (ds g)) (to_ull x) \<inter> class_of (par (ds g)) (to_ull y) = {} \<and>
      class_of (par (ds g')) (to_ull x) = class_of (par (ds g)) (to_ull x) \<union> class_of (par (ds g)) (to_ull y) \<and>
      lastm' = int (get_smallest_count (ds g)) \<and>
      min (card (class_of (par (ds g)) (to_ull x))) (card (class_of (par (ds g)) (to_ull y)))
        = get_smallest_count (ds g)"
proof -
  have inv: "gds_inv (ds g)" using run by (rule genie_run_inv)
  from iter gini obtain g1 i1 i2
    where br: "genie_branch g lastm = ok (g1, i1, i2, lastm')"
      and mg: "genie_merge g1 i1 i2 = ok g'"
    by (auto simp: genie_iter_def bindR_eq_ok)
  note post = genie_branch_post [OF inv br]
  have inv1: "gds_inv (ds g1)" and n1: "ds_n (ds g1) = ds_n (ds g)"
    and cnt1: "cnt (ds g1) = cnt (ds g)"
    and rep1: "\<And>z. rep_of (par (ds g1)) z = rep_of (par (ds g)) z"
    using post(2) by (simp_all add: same_sets_def)
  have len: "length (par (ds g)) = ds_n (ds g)" "length (par (ds g1)) = ds_n (ds g)"
    and pinv1: "par_inv (par (ds g1))"
    using inv inv1 n1 by (simp_all add: gds_inv_def ds_inv_def)
  have cls1: "class_of (par (ds g1)) z = class_of (par (ds g)) z" for z
    by (rule class_of_cong) (simp_all add: len rep1)
  from genie_merge_post [OF inv1 mg] obtain x y
    where x: "rd (denoise_index_rev g) i1 = ok x" and y: "rd (denoise_index_rev g) i2 = ok y"
      and lt: "to_ull x < ds_n (ds g)" "to_ull y < ds_n (ds g)"
      and ne: "rep_of (par (ds g)) (to_ull x) \<noteq> rep_of (par (ds g)) (to_ull y)"
      and par': "par (ds g') = union_par (par (ds g1)) (to_ull x) (to_ull y)"
    unfolding post(3) n1 rep1 by blast
  let ?A = "class_of (par (ds g)) (to_ull x)" and ?B = "class_of (par (ds g)) (to_ull y)"
  have disj: "?A \<inter> ?B = {}" using ne by (rule class_of_disjoint)
  have un: "class_of (par (ds g')) (to_ull x) = ?A \<union> ?B"
    unfolding par'
    using class_of_union [OF pinv1, of "to_ull x" "to_ull y" "to_ull x"] lt ne
    by (simp add: len rep1 cls1)
  have cA: "card ?A = cnt (ds g) ! rep_of (par (ds g)) (to_ull x)"
    and cB: "card ?B = cnt (ds g) ! rep_of (par (ds g)) (to_ull y)"
    using cnt_class [OF inv] lt by simp_all
  have geA: "get_smallest_count (ds g) \<le> card ?A" and geB: "get_smallest_count (ds g) \<le> card ?B"
    using smallest_le [OF inv] lt cA cB by simp_all
  from post(4) obtain e re
    where e: "e = i1 \<or> e = i2" and re: "rd (denoise_index_rev g) e = ok re"
      and sz: "int (cnt (ds g) ! rep_of (par (ds g)) (to_ull re)) = lastm'"
    by blast
  have "card ?A = get_smallest_count (ds g) \<or> card ?B = get_smallest_count (ds g)"
    using e re sz x y cA cB post(1) by auto
  then have "min (card ?A) (card ?B) = get_smallest_count (ds g)"
    using geA geB by (auto simp: min_def)
  then show ?thesis
    using br x y lt disj un post(1) by blast
qed


section \<open>Connectivity\<close>

lemma conn_refl [simp]: "(x, x) \<in> conn E"
  by (simp add: conn_def)

lemma conn_sym: "(x, y) \<in> conn E \<Longrightarrow> (y, x) \<in> conn E"
proof -
  have "sym ((set E \<union> (set E)\<inverse>)\<^sup>*)"
    by (intro sym_rtrancl sym_Un_converse)
  then show "(x, y) \<in> conn E \<Longrightarrow> (y, x) \<in> conn E"
    unfolding conn_def by (rule symD)
qed

lemma conn_trans: "(x, y) \<in> conn E \<Longrightarrow> (y, z) \<in> conn E \<Longrightarrow> (x, z) \<in> conn E"
  unfolding conn_def by (rule rtrancl_trans)

lemma conn_edge: "(u, v) \<in> set E \<Longrightarrow> (u, v) \<in> conn E"
  unfolding conn_def by (intro r_into_rtrancl) simp

lemma conn_mono: "set E \<subseteq> set E' \<Longrightarrow> (x, y) \<in> conn E \<Longrightarrow> (x, y) \<in> conn E'"
  unfolding conn_def by (erule rtrancl_mono [THEN subsetD, rotated]) auto

lemma conn_snoc:
  "(x, y) \<in> conn (E @ [(u, v)]) \<longleftrightarrow>
     (x, y) \<in> conn E \<or> ((x, u) \<in> conn E \<and> (v, y) \<in> conn E) \<or> ((x, v) \<in> conn E \<and> (u, y) \<in> conn E)"
  (is "?L \<longleftrightarrow> ?R x y")
proof
  assume ?L
  then have "(x, y) \<in> (set (E @ [(u, v)]) \<union> (set (E @ [(u, v)]))\<inverse>)\<^sup>*"
    by (simp add: conn_def)
  then show "?R x y"
  proof (induction rule: rtrancl_induct)
    case base
    show ?case by simp
  next
    case (step y z)
    from step(2) consider "(y, z) \<in> set E \<union> (set E)\<inverse>" | "y = u \<and> z = v" | "y = v \<and> z = u"
      by auto
    then show ?case
    proof cases
      case 1
      then have yz: "(y, z) \<in> conn E" unfolding conn_def by (rule r_into_rtrancl)
      show ?thesis using step(3) yz by (meson conn_trans)
    next
      case 2
      then show ?thesis using step(3) by (meson conn_refl conn_sym conn_trans)
    next
      case 3
      then show ?thesis using step(3) by (meson conn_refl conn_sym conn_trans)
    qed
  qed
next
  have sub: "(a, b) \<in> conn E \<Longrightarrow> (a, b) \<in> conn (E @ [(u, v)])" for a b
    by (rule conn_mono [of E]) auto
  have uv: "(u, v) \<in> conn (E @ [(u, v)])"
    by (rule conn_edge) simp
  assume "?R x y"
  then show ?L
    using sub uv by (meson conn_sym conn_trans)
qed

lemma conn_labelled:
  assumes "(x, y) \<in> conn E" and "\<And>a b. (a, b) \<in> set E \<Longrightarrow> f a = f b"
  shows "f x = f y"
  using assms(1) unfolding conn_def
proof (induction rule: rtrancl_induct)
  case base
  show ?case by simp
next
  case (step y z)
  then show ?case using assms(2) by auto
qed

lemma edges_of_Suc: "edges_of e (Suc m) = edges_of e m @ [(nat (e ! (2 * m)), nat (e ! (2 * m + 1)))]"
  by (simp add: edges_of_def)

lemma take_edges_of: "j \<le> m \<Longrightarrow> take j (edges_of e m) = edges_of e j"
  by (simp add: edges_of_def take_map)

lemma length_edges_of [simp]: "length (edges_of e m) = m"
  by (simp add: edges_of_def)

lemma edges_of_nth: "j < m \<Longrightarrow> edges_of e m ! j = (nat (e ! (2 * j)), nat (e ! (2 * j + 1)))"
  by (simp add: edges_of_def)

section \<open>The Gini index never exceeds 1\<close>

lemma frac_le_1:
  assumes "(a::int) \<le> b" "0 \<le> b"
  shows "(of_int a :: rat) / of_int b \<le> 1"
proof (cases "b = 0")
  case True
  then show ?thesis by simp
next
  case False
  then have "0 < (of_int b :: rat)" using assms(2) by simp
  moreover have "(of_int a :: rat) \<le> of_int b" using assms(1) by (simp only: of_int_le_iff)
  ultimately show ?thesis by (simp add: divide_le_eq_1)
qed

lemma gini_index_le_1: "gini_index s \<le> 1"
proof (cases "length s \<le> 1")
  case True
  then show ?thesis by (simp add: gini_index_def)
next
  case False
  let ?k = "length s"
  let ?num = "\<Sum>i\<leftarrow>[0..<?k]. (2 * (int i + 1) - int ?k - 1) * int (s ! i)"
  let ?den = "(int ?k - 1) * int (sum_list s)"
  have "?num \<le> (\<Sum>i\<leftarrow>[0..<?k]. (int ?k - 1) * int (s ! i))"
    by (rule sum_list_mono) (auto intro!: mult_right_mono)
  also have "\<dots> = (int ?k - 1) * (\<Sum>i\<leftarrow>[0..<?k]. int (s ! i))"
    by (simp add: sum_list_const_mult)
  also have "(\<Sum>i\<leftarrow>[0..<?k]. int (s ! i)) = int (sum_list s)"
  proof -
    have "map (\<lambda>i. int (s ! i)) [0..<?k] = map int s"
      by (intro nth_equalityI) simp_all
    then show ?thesis by (simp add: sum_list_of_nat)
  qed
  finally have le: "?num \<le> ?den" .
  have den: "0 \<le> ?den" using False by (intro mult_nonneg_nonneg) auto
  have "(of_int ?num :: rat) / of_int ?den \<le> 1"
    by (rule frac_le_1 [OF le den])
  then show ?thesis using False by (simp add: gini_index_def Let_def)
qed

lemma get_gini_le_1: "\<not> get_gini d > 1"
  using gini_index_le_1 [of "set_sizes d"] by (simp add: get_gini_def not_less)


section \<open>Single linkage\<close>

lemma skiplist_init_plain:
  assumes "0 \<le> n"
  shows "skiplist_init (plain_engine d e n dg) = ok (linked_engine d e n dg)"
proof -
  let ?g = "plain_engine d e n dg"
  define f where "f k = ?g
       \<lparr>next_edge := map (\<lambda>i. int i + 1) [0..<k] @ replicate (nat n - k) 0,
        prev_edge := map (\<lambda>i. int i - 1) [0..<k] @ replicate (nat n - k) 0\<rparr>" for k
  have step: "skiplist_plain_body (0 + int k) (f k) = ok (f (Suc k))" if "k < nat (n - 1)" for k
  proof -
    have k: "k < nat n" using that by simp
    have u: "(map (\<lambda>i. int i + c) [0..<k] @ replicate (nat n - k) 0)[k := int k + c]
        = map (\<lambda>i. int i + c) [0..<Suc k] @ replicate (nat n - Suc k) 0" for c
      using update_fill [of "map (\<lambda>i. int i + c) [0..<k]" "nat n" 0 "int k + c"] k by simp
    show ?thesis
      using k u [of 1] u [of "- 1"] assms by (simp add: skiplist_plain_body_def f_def wr_def)
  qed
  have "forM [0..0 + int (nat (n - 1)) - 1] skiplist_plain_body (f 0) = ok (f (nat (n - 1)))"
    by (rule forM_eq) (rule step)
  moreover have "f 0 = ?g\<lparr>curidx := 0, lastidx := 0\<rparr>"
    by (simp add: f_def plain_engine_def engine0_def)
  moreover have "f (nat (n - 1)) = linked_engine d e n dg"
    by (simp add: f_def linked_engine_def)
  moreover have "[0..0 + int (nat (n - 1)) - 1] = [0..n - 1 - 1]"
    using assms by (cases "1 \<le> n") simp_all
  ultimately show ?thesis
    by (simp add: skiplist_init_def plain_engine_def engine0_def)
qed

lemma rank_of_union:
  assumes "par_inv p" "x < length p" "y < length p" "rep_of p x \<noteq> rep_of p y"
  shows "rank_of (union_par p x y) (length p) = rank_of p (length p) - 1"
proof -
  let ?a = "min (rep_of p x) (rep_of p y)" and ?b = "max (rep_of p x) (rep_of p y)"
  have ab: "?a \<noteq> ?b" "rep_of p ?a = ?a" "rep_of p ?b = ?b" "?b < length p"
    using assms rep_of_less_length [of x p] rep_of_less_length [of y p]
    by (simp_all add: min_def max_def rep_of_idem)
  have root: "rep_of (union_par p x y) z = z \<longleftrightarrow> rep_of p z = z \<and> z \<noteq> ?b" for z
    unfolding rep_of_union [OF assms] using ab by auto
  have "filter (\<lambda>z. rep_of (union_par p x y) z = z) [0..<length p]
      = removeAll ?b (filter (\<lambda>z. rep_of p z = z) [0..<length p])"
    by (auto simp: root removeAll_filter_not_eq intro: filter_cong)
  also have "\<dots> = remove1 ?b (filter (\<lambda>z. rep_of p z = z) [0..<length p])"
    by (simp add: distinct_remove1_removeAll)
  finally show ?thesis
    using ab by (simp add: rank_of_def length_remove1)
qed

lemma to_ull_nat: "0 \<le> x \<Longrightarrow> x < 2 ^ 64 \<Longrightarrow> to_ull x = nat x"
  by (simp add: to_ull_def)


lemma linked_engine_fields:
  "mst_i (linked_engine d e n dg) = e"
  "cg_n (linked_engine d e n dg) = n"
  "noise_count (linked_engine d e n dg) = 0"
  "denoise_index (linked_engine d e n dg) = map int [0..<nat n]"
  "denoise_index_rev (linked_engine d e n dg) = map int [0..<nat n]"
  "curidx (linked_engine d e n dg) = 0"
  by (simp_all add: linked_engine_def plain_engine_def engine0_def)

lemma linked_engine_next:
  assumes "j < nat (n - 1)"
  shows "rd (next_edge (linked_engine d e n dg)) (int j) = ok (int j + 1)"
proof -
  have "int j < n - 1" "0 \<le> n" using assms by linarith+
  then show ?thesis using assms by (simp add: linked_engine_def rd_def nth_append)
qed

lemma rd_identity: "0 \<le> x \<Longrightarrow> x < n \<Longrightarrow> rd (map int [0..<nat n]) x = ok x"
  by (simp add: rd_def)

lemma rd_edge:
  assumes "length e = 2 * m" "j < m"
  shows "rd e (2 * int j + 0) = ok (e ! (2 * j))" "rd e (2 * int j + 1) = ok (e ! (2 * j + 1))"
  using assms by (simp_all add: rd_def nat_add_distrib nat_mult_distrib)

lemma sl_step:
  fixes g :: "'a CGenie"
  assumes g: "g = linked_engine d e n dg"
    and n: "n < 2 ^ 64"
    and len: "length e = 2 * nat (n - 1)"
    and rng: "\<forall>x\<in>set e. 0 \<le> x \<and> x < n"
    and forest: "\<forall>j<nat (n - 1). edges_of e (nat (n - 1)) ! j \<notin> conn (edges_of e j)"
    and j: "j < nat (n - 1)"
    and s: "sl_state g j s"
  shows "\<exists>s'. genie_iter 1 (0 + int j) s = ok s' \<and> sl_state g (Suc j) s'"
proof -
  let ?N = "nat n"
  from s obtain D where s_eq: "s = (g\<lparr>curidx := int j, ds := D\<rparr>, 0)"
    and inv: "gds_inv D" and dn: "ds_n D = ?N"
    and rk: "rank_of (par D) ?N = ?N - j"
    and cn: "\<forall>x<?N. \<forall>y<?N. rep_of (par D) x = rep_of (par D) y \<longleftrightarrow> (x, y) \<in> conn (edges_of e j)"
    unfolding sl_state_def g linked_engine_fields by blast
  let ?u = "e ! (2 * j)" and ?v = "e ! (2 * j + 1)"
  have mem: "?u \<in> set e" "?v \<in> set e" using len j by simp_all
  then have u: "0 \<le> ?u" "?u < n" and v: "0 \<le> ?v" "?v < n" using rng by simp_all
  let ?U = "nat ?u" and ?V = "nat ?v"
  have UV: "?U < ?N" "?V < ?N" using u v by simp_all
  have tu: "to_ull ?u = ?U" "to_ull ?v = ?V" using u v n by (simp_all add: to_ull_nat)
  have pinv: "par_inv (par D)" and plen: "length (par D) = ?N"
    using inv dn by (simp_all add: gds_inv_def ds_inv_def)
  have "edges_of e (nat (n - 1)) ! j = (?U, ?V)" using j by (simp add: edges_of_nth)
  then have "(?U, ?V) \<notin> conn (edges_of e j)" using forest j by metis
  then have ne: "rep_of (par D) ?U \<noteq> rep_of (par D) ?V" using cn UV by simp
  let ?g1 = "g\<lparr>curidx := int j, ds := D\<rparr>"
  have sb: "single_branch ?g1 0 = ok (?g1\<lparr>curidx := int j + 1\<rparr>, ?u, ?v, 0)"
    using rd_edge [OF len j] linked_engine_next [OF j, of d e dg]
    by (simp add: single_branch_def g linked_engine_fields)
  let ?D' = "D\<lparr>par := union_par (par D) ?U ?V, ds_k := dec_ull (ds_k D),
                 cnt := (cnt D)[min (rep_of (par D) ?U) (rep_of (par D) ?V) :=
                    cnt D ! min (rep_of (par D) ?U) (rep_of (par D) ?V)
                    + cnt D ! max (rep_of (par D) ?U) (rep_of (par D) ?V)]\<rparr>"
  have mg: "genie_merge (?g1\<lparr>curidx := int j + 1\<rparr>) ?u ?v = ok (g\<lparr>curidx := int (Suc j), ds := ?D'\<rparr>)"
    using u v UV ne inv dn tu
    by (simp add: genie_merge_def g linked_engine_fields rd_identity CGiniDisjointSets_merge_eq add.commute)
  have it: "genie_iter 1 (0 + int j) s = ok (g\<lparr>curidx := int (Suc j), ds := ?D'\<rparr>, 0)"
    unfolding s_eq genie_iter_def using get_gini_le_1 [of D] sb mg by simp
  have inv': "gds_inv ?D'"
    using gds_inv_merge [OF inv, of ?U ?V] UV ne dn by simp
  have rk': "rank_of (par ?D') ?N = ?N - Suc j"
    using rank_of_union [OF pinv, of ?U ?V] UV ne plen rk by simp
  have rep': "rep_of (par ?D') z = (if rep_of (par D) z = max (rep_of (par D) ?U) (rep_of (par D) ?V)
        then min (rep_of (par D) ?U) (rep_of (par D) ?V) else rep_of (par D) z)" for z
    using rep_of_union [OF pinv, of ?U ?V z] UV ne plen by simp
  have cn': "rep_of (par ?D') x = rep_of (par ?D') y \<longleftrightarrow> (x, y) \<in> conn (edges_of e (Suc j))"
    if xy: "x < ?N" "y < ?N" for x y
  proof -
    have c: "(x, y) \<in> conn (edges_of e j) \<longleftrightarrow> rep_of (par D) x = rep_of (par D) y"
      "(x, ?U) \<in> conn (edges_of e j) \<longleftrightarrow> rep_of (par D) x = rep_of (par D) ?U"
      "(x, ?V) \<in> conn (edges_of e j) \<longleftrightarrow> rep_of (par D) x = rep_of (par D) ?V"
      "(?U, y) \<in> conn (edges_of e j) \<longleftrightarrow> rep_of (par D) ?U = rep_of (par D) y"
      "(?V, y) \<in> conn (edges_of e j) \<longleftrightarrow> rep_of (par D) ?V = rep_of (par D) y"
      using cn xy UV by simp_all
    show ?thesis
      unfolding edges_of_Suc conn_snoc c rep' using ne
      by (auto simp: min_def max_def split: if_splits)
  qed
  have "sl_state g (Suc j) (g\<lparr>curidx := int (Suc j), ds := ?D'\<rparr>, 0)"
    unfolding sl_state_def g linked_engine_fields
    using inv' rk' cn' dn by (intro exI [of _ ?D']) simp
  then show ?thesis using it by blast
qed


lemma rank_of_Suc: "rank_of p (Suc r) = (if rep_of p r = r then Suc (rank_of p r) else rank_of p r)"
  by (simp add: rank_of_def)

lemma rank_of_mono: "a \<le> b \<Longrightarrow> rank_of p a \<le> rank_of p b"
proof (induction b)
  case 0
  then show ?case by simp
next
  case (Suc b)
  then show ?case by (cases "a = Suc b") (auto simp: rank_of_Suc)
qed

lemma wrap_int_id: "- (2 ^ 31) \<le> x \<Longrightarrow> x < 2 ^ 31 \<Longrightarrow> wrap_int x = x"
  by (simp add: wrap_int_def)

text \<open>One iteration of the loop of \<open>get_labels\<close>, when the number of sets fits in an
  \<open>int\<close>: the counter does not overflow.\<close>

lemma labels_step:
  fixes g :: "'a CGenie"
  assumes rev: "denoise_index_rev g = map int [0..<length p]"
    and idx: "denoise_index g = map int [0..<length p]"
    and n: "int (length p) < 2 ^ 64"
    and bound: "int (rank_of p (length p)) < 2 ^ 31"
    and pinv: "par_inv p"
    and i: "i < length p"
    and s: "labels_state g p i s"
  shows "\<exists>s'. labels_body (0 + int i) s = ok s' \<and> labels_state g p (Suc i) s'"
proof -
  from s obtain D rci res
    where s_eq: "s = (g\<lparr>ds := D\<rparr>, rci, int (rank_of p i), res)"
      and inv: "ds_inv D" and dn: "ds_n D = length p"
      and rep: "\<And>z. rep_of (par D) z = rep_of p z"
      and lrci: "length rci = length p"
      and rci: "\<And>r. r < length p \<Longrightarrow>
          rci ! r = (if r < i \<and> rep_of p r = r then int (rank_of p r) else - 1)"
      and lres: "length res = length p"
      and res: "\<And>v. v < i \<Longrightarrow> res ! v = int (rank_of p (rep_of p v))"
    unfolding labels_state_def by blast
  let ?r = "rep_of p i"
  have r: "?r \<le> i" "?r < length p" "rep_of p ?r = ?r"
    using rep_of_le [of p i] i pinv by (simp_all add: rep_of_idem)
  have r1: "rd (denoise_index_rev (g\<lparr>ds := D\<rparr>)) (int i) = ok (int i)"
    using i by (simp add: rev rd_def)
  have tu: "to_ull (int i) = i"
    using i n by (simp add: to_ull_nat)
  let ?D' = "D\<lparr>par := compress (par D) i\<rparr>"
  have f: "DisjointSets_find D i = ok (?D', ?r)"
    using inv i dn by (simp add: DisjointSets_find_eq rep)
  have r2: "rd (denoise_index (g\<lparr>ds := D\<rparr>)) (int ?r) = ok (int ?r)"
    using r(2) by (simp add: idx rd_def)
  have r3: "rd rci (int ?r) = ok (rci ! ?r)"
    using r(2) lrci by (simp add: rd_def)
  have w1: "wr rci (int i) c = ok (rci[i := c])" for c
    using i lrci by (simp add: wr_def)
  have w2: "wr res (int i) c = ok (res[i := c])" for c
    using i lres by (simp add: wr_def)
  have inv': "ds_inv ?D'" "ds_n ?D' = length p" "\<And>z. rep_of (par ?D') z = rep_of p z"
    using inv dn ds_inv_compress [of D i] rep_of_compress [of "par D" i] rep
    by (simp_all add: ds_inv_def)
  show ?thesis
  proof (cases "?r = i")
    case True
    then have old: "rci ! ?r = - 1" using rci [OF r(2)] by simp
    let ?rci = "rci[i := int (rank_of p i)]"
    have r4: "rd ?rci (int i) = ok (int (rank_of p i))"
      using i lrci by (simp add: rd_def)
    have "rank_of p (Suc i) \<le> rank_of p (length p)" using i by (intro rank_of_mono) simp
    then have "int (rank_of p i) + 1 < 2 ^ 31"
      using bound r(3) True by (simp add: rank_of_Suc)
    then have inc: "wrap_int (int (rank_of p i) + 1) = int (rank_of p i) + 1"
      by (intro wrap_int_id) simp_all
    have body: "labels_body (0 + int i) s =
        ok (g\<lparr>ds := ?D'\<rparr>, ?rci, int (rank_of p (Suc i)), res[i := int (rank_of p i)])"
      unfolding s_eq labels_body_def
      using r1 tu f r2 r3 r4 old True w1 w2 inc
      by (simp add: rank_of_Suc)
    have "labels_state g p (Suc i) (g\<lparr>ds := ?D'\<rparr>, ?rci, int (rank_of p (Suc i)), res[i := int (rank_of p i)])"
      unfolding labels_state_def
    proof (intro exI conjI allI impI)
      show "(g\<lparr>ds := ?D'\<rparr>, ?rci, int (rank_of p (Suc i)), res[i := int (rank_of p i)])
          = (g\<lparr>ds := ?D'\<rparr>, ?rci, int (rank_of p (Suc i)), res[i := int (rank_of p i)])" by simp
      show "ds_inv ?D'" "ds_n ?D' = length p" by (rule inv')+
      show "rep_of (par ?D') z = rep_of p z" for z by (rule inv')
      show "length ?rci = length p" using lrci by simp
      show "length (res[i := int (rank_of p i)]) = length p" using lres by simp
      show "?rci ! x = (if x < Suc i \<and> rep_of p x = x then int (rank_of p x) else - 1)"
        if "x < length p" for x
        using rci [OF that] that lrci True by (cases "x = i") (auto simp: less_Suc_eq)
      show "res[i := int (rank_of p i)] ! v = int (rank_of p (rep_of p v))" if "v < Suc i" for v
        using res [of v] that lres i True by (cases "v = i") (auto simp: less_Suc_eq)
    qed
    then show ?thesis using body by blast
  next
    case False
    then have lt: "?r < i" using r(1) by simp
    then have old: "rci ! ?r = int (rank_of p ?r)" using rci [OF r(2)] r(3) by simp
    have body: "labels_body (0 + int i) s =
        ok (g\<lparr>ds := ?D'\<rparr>, rci, int (rank_of p (Suc i)), res[i := int (rank_of p ?r)])"
      unfolding s_eq labels_body_def
      using r1 tu f r2 r3 old False w2
      by (simp add: rank_of_Suc)
    have "labels_state g p (Suc i) (g\<lparr>ds := ?D'\<rparr>, rci, int (rank_of p (Suc i)), res[i := int (rank_of p ?r)])"
      unfolding labels_state_def
    proof (intro exI conjI allI impI)
      show "(g\<lparr>ds := ?D'\<rparr>, rci, int (rank_of p (Suc i)), res[i := int (rank_of p ?r)])
          = (g\<lparr>ds := ?D'\<rparr>, rci, int (rank_of p (Suc i)), res[i := int (rank_of p ?r)])" by simp
      show "ds_inv ?D'" "ds_n ?D' = length p" by (rule inv')+
      show "rep_of (par ?D') z = rep_of p z" for z by (rule inv')
      show "length rci = length p" using lrci by simp
      show "length (res[i := int (rank_of p ?r)]) = length p" using lres by simp
      show "rci ! x = (if x < Suc i \<and> rep_of p x = x then int (rank_of p x) else - 1)"
        if "x < length p" for x
        using rci [OF that] False by (cases "x = i") (auto simp: less_Suc_eq)
      show "res[i := int (rank_of p ?r)] ! v = int (rank_of p (rep_of p v))" if "v < Suc i" for v
        using res [of v] that lres i by (cases "v = i") (auto simp: less_Suc_eq)
    qed
    then show ?thesis using body by blast
  qed
qed

lemma get_labels_plain:
  fixes g :: "'a CGenie"
  assumes rev: "denoise_index_rev g = map int [0..<nat (cg_n g)]"
    and idx: "denoise_index g = map int [0..<nat (cg_n g)]"
    and n: "0 \<le> cg_n g" "cg_n g < 2 ^ 64"
    and inv: "ds_inv (ds g)" and dn: "ds_n (ds g) = nat (cg_n g)"
    and bound: "int (rank_of (par (ds g)) (nat (cg_n g))) < 2 ^ 31"
    and lres: "length res = nat (cg_n g)"
  shows "\<exists>g'. get_labels g res =
     ok (g', map (\<lambda>v. int (rank_of (par (ds g)) (rep_of (par (ds g)) v))) [0..<nat (cg_n g)])"
proof -
  let ?p = "par (ds g)" and ?N = "nat (cg_n g)"
  have plen: "length ?p = ?N" and pinv: "par_inv ?p"
    using inv dn by (simp_all add: ds_inv_def)
  have init: "labels_state g ?p 0 (g, replicate ?N (- 1), 0, res)"
    unfolding labels_state_def
    using inv dn lres plen
    by (intro exI [of _ "ds g"] exI [of _ "replicate ?N (- 1)"] exI [of _ res])
      (simp add: rank_of_def)
  have "\<exists>s'. forM [0..0 + int ?N - 1] labels_body (g, replicate ?N (- 1), 0, res) = ok s'
      \<and> labels_state g ?p ?N s'"
  proof (rule forM_total [where P = "labels_state g ?p"])
    show "labels_state g ?p 0 (g, replicate ?N (- 1), 0, res)" by (rule init)
  next
    fix k s
    assume "k < ?N" "labels_state g ?p k s"
    then show "\<exists>s'. labels_body (0 + int k) s = ok s' \<and> labels_state g ?p (Suc k) s'"
      using n bound by (intro labels_step) (simp_all add: rev idx plen pinv)
  qed
  then obtain D rci res'
    where run: "forM [0..cg_n g - 1] labels_body (g, replicate ?N (- 1), 0, res)
        = ok (g\<lparr>ds := D\<rparr>, rci, int (rank_of ?p ?N), res')"
      and lres': "length res' = ?N"
      and res': "\<forall>v<?N. res' ! v = int (rank_of ?p (rep_of ?p v))"
    unfolding labels_state_def using n(1) plen by auto
  have "res' = map (\<lambda>v. int (rank_of ?p (rep_of ?p v))) [0..<?N]"
    using lres' res' by (intro nth_equalityI) simp_all
  then show ?thesis
    using run by (simp add: get_labels_def)
qed


text \<open>The loop of \<open>get_labels\<close> does not move the cursor of the skip-list.\<close>

lemma labels_body_curidx:
  assumes "labels_body i s = ok t"
  shows "curidx (fst t) = curidx (fst s)"
proof (cases s)
  case (fields g rci c res)
  show ?thesis
  proof (cases "rd (denoise_index_rev g) i" rule: res_cases)
    case none
    then show ?thesis using assms by (simp add: fields labels_body_def)
  next
    case (err x)
    then show ?thesis using assms by (simp add: fields labels_body_def)
  next
    case (val r)
    show ?thesis
    proof (cases "r \<ge> 0")
      case False
      then show ?thesis
        using assms val by (auto simp: fields labels_body_def bindR_eq_ok)
    next
      case True
      then obtain d root j old rci1 c1 lab res1
        where "t = (g\<lparr>ds := d\<rparr>, rci1, c1, res1)"
        using assms val unfolding fields labels_body_def
        by (simp add: bindR_eq_ok split_paired_Ex) blast
      then show ?thesis by (simp add: fields)
    qed
  qed
qed



text \<open>Everything \<open>get_labels\<close> stores is a C++ \<open>int\<close>: when the caller's buffer holds
  \<open>int\<close>s, so do the counter and both arrays after every iteration, and the labels
  returned.\<close>

lemma wrap_int_range: "- (2 ^ 31) \<le> wrap_int x \<and> wrap_int x < 2 ^ 31"
proof -
  have "0 \<le> (x + 2 ^ 31) mod 2 ^ 32" "(x + 2 ^ 31) mod 2 ^ 32 < (2 ^ 32 :: int)"
    by simp_all
  then show ?thesis by (simp add: wrap_int_def)
qed

lemma labels_body_int:
  assumes "labels_body i (g, rci, c, res) = ok (g', rci', c', res')"
    and "- (2 ^ 31) \<le> c \<and> c < 2 ^ 31"
    and "\<forall>x\<in>set rci. - (2 ^ 31) \<le> x \<and> x < 2 ^ 31"
    and "\<forall>x\<in>set res. - (2 ^ 31) \<le> x \<and> x < 2 ^ 31"
  shows "(- (2 ^ 31) \<le> c' \<and> c' < 2 ^ 31) \<and>
    (\<forall>x\<in>set rci'. - (2 ^ 31) \<le> x \<and> x < 2 ^ 31) \<and>
    (\<forall>x\<in>set res'. - (2 ^ 31) \<le> x \<and> x < 2 ^ 31)"
proof -
  define I :: "int \<Rightarrow> bool" where "I x = (- (2 ^ 31) \<le> x \<and> x < 2 ^ 31)" for x
  have c: "I c" and rci: "\<forall>x\<in>set rci. I x" and res: "\<forall>x\<in>set res. I x"
    using assms(2,3,4) by (simp_all add: I_def)
  have m1: "I (- 1)" by (simp add: I_def)
  have wrp: "I (wrap_int x)" for x using wrap_int_range [of x] by (simp add: I_def)
  have upd: "\<forall>x\<in>set (xs[k := v]). I x" if "\<forall>x\<in>set xs. I x" "I v" for xs k v
    using that set_update_subset_insert [of xs k v] by blast
  have wrI: "\<forall>x\<in>set ys. I x" if "wr xs k v = ok ys" "\<forall>x\<in>set xs. I x" "I v" for xs ys k v
    using that upd [of xs v "nat k"] by (auto simp: wr_def split: if_splits)
  have rdI: "I v" if "rd xs k = ok v" "\<forall>x\<in>set xs. I x" for xs k v
    using that by (auto simp: rd_def split: if_splits)
  have "I c' \<and> (\<forall>x\<in>set rci'. I x) \<and> (\<forall>x\<in>set res'. I x)"
  proof (cases "rd (denoise_index_rev g) i" rule: res_cases)
    case none
    then show ?thesis using assms(1) by (simp add: labels_body_def)
  next
    case (err x)
    then show ?thesis using assms(1) by (simp add: labels_body_def)
  next
    case (val r)
    show ?thesis
    proof (cases "r \<ge> 0")
      case False
      then have "wr res i (- 1) = ok res'" "rci' = rci" "c' = c"
        using assms(1) val by (auto simp: labels_body_def bindR_eq_ok)
      then show ?thesis using c rci wrI [OF _ res m1] by blast
    next
      case True
      show ?thesis
      proof (cases "DisjointSets_find (ds g) (to_ull r)" rule: res_cases)
        case none
        then show ?thesis using assms(1) val True by (simp add: labels_body_def)
      next
        case (err x)
        then show ?thesis using assms(1) val True by (simp add: labels_body_def)
      next
        case f: (val dr)
        obtain d root where dr: "dr = (d, root)" by (cases dr)
        show ?thesis
        proof (cases "rd (denoise_index g) (int root)" rule: res_cases)
          case none
          then show ?thesis using assms(1) val True f dr by (simp add: labels_body_def)
        next
          case (err x)
          then show ?thesis using assms(1) val True f dr by (simp add: labels_body_def)
        next
          case j: (val j)
          show ?thesis
          proof (cases "rd rci j" rule: res_cases)
            case none
            then show ?thesis using assms(1) val True f dr j by (simp add: labels_body_def)
          next
            case (err x)
            then show ?thesis using assms(1) val True f dr j by (simp add: labels_body_def)
          next
            case old: (val old)
            have rest: "bindR (if old < 0 then
                     bindR (wr rci j c) (\<lambda>rci. ok (rci, wrap_int (c + 1)))
                   else ok (rci, c)) (\<lambda>(rci, c1).
                bindR (rd rci j) (\<lambda>lab.
                bindR (wr res i lab) (\<lambda>res1.
                ok (g\<lparr>ds := d\<rparr>, rci, c1, res1)))) = ok (g', rci', c', res')"
              using assms(1) val True f dr j old by (simp add: labels_body_def)
            then obtain lab
              where br: "(if old < 0 then bindR (wr rci j c) (\<lambda>rci. ok (rci, wrap_int (c + 1)))
                  else ok (rci, c)) = ok (rci', c')"
                and lab: "rd rci' j = ok lab" and w: "wr res i lab = ok res'"
              by (auto simp: bindR_eq_ok)
            have a: "I c' \<and> (\<forall>x\<in>set rci'. I x)"
            proof (cases "old < 0")
              case True
              then have "wr rci j c = ok rci'" "c' = wrap_int (c + 1)"
                using br by (auto simp: bindR_eq_ok)
              then show ?thesis using wrI [OF _ rci c] wrp by blast
            next
              case False
              then show ?thesis using br c rci by simp
            qed
            then have "I lab" using rdI [OF lab] by blast
            then show ?thesis using a wrI [OF w res] by blast
          qed
        qed
      qed
    qed
  qed
  then show ?thesis by (simp add: I_def)
qed

lemma get_labels_int:
  assumes run: "get_labels g res = ok (g', labels)"
    and res: "\<forall>x\<in>set res. - (2 ^ 31) \<le> x \<and> x < 2 ^ 31"
  shows "\<forall>x\<in>set labels. - (2 ^ 31) \<le> x \<and> x < 2 ^ 31"
proof -
  define P :: "'a CGenie \<times> int list \<times> int \<times> int list \<Rightarrow> bool" where
    "P s = (case s of (g, rci, c, res) \<Rightarrow>
        (- (2 ^ 31) \<le> c \<and> c < 2 ^ 31) \<and>
        (\<forall>x\<in>set rci. - (2 ^ 31) \<le> x \<and> x < 2 ^ 31) \<and>
        (\<forall>x\<in>set res. - (2 ^ 31) \<le> x \<and> x < 2 ^ 31))" for s
  from run obtain rci c
    where f: "forM [0..cg_n g - 1] labels_body (g, replicate (nat (cg_n g)) (- 1), 0, res)
        = ok (g', rci, c, labels)"
    by (auto simp: get_labels_def bindR_eq_ok)
  have "P (g', rci, c, labels)"
  proof (rule forM_partial [OF f])
    show "P (g, replicate (nat (cg_n g)) (- 1), 0, res)" using res by (simp add: P_def)
  next
    fix i and s t :: "'a CGenie \<times> int list \<times> int \<times> int list"
    assume "labels_body i s = ok t" "P s"
    then show "P t"
      using labels_body_int [of i "fst s" "fst (snd s)" "fst (snd (snd s))" "snd (snd (snd s))"
          "fst t" "fst (snd t)" "fst (snd (snd t))" "snd (snd (snd t))"]
      by (simp add: P_def case_prod_unfold)
  qed
  then show ?thesis by (simp add: P_def)
qed

lemma conn_Nil: "(x, y) \<in> conn [] \<longleftrightarrow> x = y"
  by (simp add: conn_def)

lemma sl_state_init:
  fixes g :: "'a CGenie"
  assumes "g = linked_engine d e n dg"
  shows "sl_state g 0 (g\<lparr>ds := CGiniDisjointSets_new (nat n)\<rparr>, 0)"
proof -
  have "g\<lparr>ds := CGiniDisjointSets_new (nat n)\<rparr> = g\<lparr>curidx := int 0, ds := CGiniDisjointSets_new (nat n)\<rparr>"
    by (simp add: assms linked_engine_def plain_engine_def engine0_def)
  moreover have "rank_of [0..<nat n] (nat n) = nat n"
    by (simp add: rank_of_def rep_of_upt)
  moreover have "edges_of e 0 = []" by (simp add: edges_of_def)
  ultimately show ?thesis
    unfolding sl_state_def assms linked_engine_fields
    by (intro exI [of _ "CGiniDisjointSets_new (nat n)"])
      (simp add: gds_inv_new conn_Nil, simp add: CGiniDisjointSets_new_def rep_of_upt)
qed

lemma do_genie_single:
  fixes g :: "'a CGenie"
  assumes g: "g = linked_engine d e n dg"
    and n: "n < 2 ^ 64"
    and len: "length e = 2 * nat (n - 1)"
    and rng: "\<forall>x\<in>set e. 0 \<le> x \<and> x < n"
    and forest: "\<forall>j<nat (n - 1). edges_of e (nat (n - 1)) ! j \<notin> conn (edges_of e j)"
    and k: "1 \<le> k" "k < n"
  shows "\<exists>D. do_genie g k 1 = ok (g\<lparr>curidx := n - k, ds := D\<rparr>) \<and> gds_inv D \<and> ds_n D = nat n \<and>
        rank_of (par D) (nat n) = nat k \<and>
        (\<forall>x<nat n. \<forall>y<nat n.
           rep_of (par D) x = rep_of (par D) y \<longleftrightarrow> (x, y) \<in> conn (edges_of e (nat (n - k))))"
proof -
  let ?m = "nat (n - k)"
  have "\<exists>s'. forM [0..0 + int ?m - 1] (genie_iter 1) (g\<lparr>ds := CGiniDisjointSets_new (nat n)\<rparr>, 0) = ok s'
      \<and> sl_state g ?m s'"
  proof (rule forM_total [where P = "sl_state g"])
    show "sl_state g 0 (g\<lparr>ds := CGiniDisjointSets_new (nat n)\<rparr>, 0)"
      using g by (rule sl_state_init)
  next
    fix j s
    assume "j < ?m" "sl_state g j s"
    then show "\<exists>s'. genie_iter 1 (0 + int j) s = ok s' \<and> sl_state g (Suc j) s'"
      using k by (intro sl_step [OF g n len rng forest]) simp_all
  qed
  then obtain D where run: "forM [0..n - k - 1] (genie_iter 1) (g\<lparr>ds := CGiniDisjointSets_new (nat n)\<rparr>, 0)
        = ok (g\<lparr>curidx := int ?m, ds := D\<rparr>, 0)"
      and D: "gds_inv D" "ds_n D = nat n" "rank_of (par D) (nat n) = nat n - ?m"
        "\<forall>x<nat n. \<forall>y<nat n.
           rep_of (par D) x = rep_of (par D) y \<longleftrightarrow> (x, y) \<in> conn (edges_of e ?m)"
    unfolding sl_state_def g linked_engine_fields using k by auto
  have "do_genie g k 1 = ok (g\<lparr>curidx := n - k, ds := D\<rparr>)"
    using run k by (simp add: do_genie_def g linked_engine_fields)
  moreover have "nat n - ?m = nat k" using k by linarith
  ultimately show ?thesis using D by auto
qed

lemma rank_of_less: "rep_of p r = r \<Longrightarrow> r < b \<Longrightarrow> rank_of p r < rank_of p b"
  using rank_of_mono [of "Suc r" b p] by (simp add: rank_of_Suc)

lemma rank_of_inj:
  assumes "rep_of p r = r" "rep_of p r' = r'" "rank_of p r = rank_of p r'"
  shows "r = r'"
  using assms rank_of_less [of p r r'] rank_of_less [of p r' r]
  by (cases r r' rule: linorder_cases) simp_all

lemma rank_of_surj: "c < rank_of p r \<Longrightarrow> \<exists>r'<r. rep_of p r' = r' \<and> rank_of p r' = c"
proof (induction r)
  case 0
  then show ?case by (simp add: rank_of_def)
next
  case (Suc r)
  show ?case
  proof (cases "c < rank_of p r")
    case True
    then show ?thesis using Suc.IH less_Suc_eq by auto
  next
    case False
    then have "rep_of p r = r \<and> rank_of p r = c"
      using Suc.prems by (auto simp: rank_of_Suc split: if_splits)
    then show ?thesis by auto
  qed
qed

lemma degrees_eq:
  assumes "length ind = 2 * m" and "length dg0 = nat n"
  shows "Cget_graph_node_degrees ind (int m) n dg0 =
     (if \<exists>i<m. rejected ind n i then throw DomainError
      else ok (map (\<lambda>v. int (incident_count ind m (int v))) [0..<nat n]))"
  unfolding Cget_graph_node_degrees_def zero_loop [OF assms(2)]
  using degrees_loop [OF assms(1) order_refl, of n] by simp


text \<open>
  C2: for every sorted spanning forest given as \<open>n - 1\<close> edges on \<open>n \<ge> 2\<close> vertices (no
  edge joins two vertices that the edges before it connect), without noise points, with
  threshold 1 and \<open>1 \<le> k < n\<close>: the Gini index never exceeds the threshold, so every
  iteration is a single-linkage step; \<open>apply_genie\<close> succeeds, has consumed exactly the edges
  \<open>0, \<dots>, n - k - 1\<close>, and two vertices get the same label iff these edges connect them,
  that is, the labels are the connected components after removing the \<open>k - 1\<close> heaviest
  edges.  The labels are \<open>0, \<dots>, k - 1\<close>, numbered in the order of first occurrence.
  The sizes are those of the machine types: \<open>n < 2 ^ 62\<close>, so that every index
  \<open>2 i + 1\<close> into the edge array is an \<open>ssize_t\<close>, and \<open>k < 2 ^ 31\<close>, so that the
  labels and the counter of \<open>get_labels\<close>, which are C++ \<open>int\<close>s, do not overflow.
\<close>

theorem C2_single_linkage:
  fixes d :: "('a::linorder) list"
  assumes n: "2 \<le> n" "n < 2 ^ 62"
    and d: "length d = nat (n - 1)" "sorted d"
    and len: "length e = 2 * nat (n - 1)"
    and rng: "\<forall>x\<in>set e. 0 \<le> x \<and> x < n"
    and forest: "\<forall>j<nat (n - 1). edges_of e (nat (n - 1)) ! j \<notin> conn (edges_of e j)"
    and k: "1 \<le> k" "k < n" "k < 2 ^ 31"
    and res: "length res = nat n"
  shows "(\<forall>D. \<not> get_gini D > 1) \<and>
    (\<exists>g g' labels.
      CGenie_new d e n False = ok g \<and>
      apply_genie g k 1 res = ok (g', labels) \<and>
      genie_labels d e n False k 1 res = ok labels \<and>
      curidx g' = n - k \<and>
      length labels = nat n \<and>
      (\<forall>x<nat n. \<forall>y<nat n.
         labels ! x = labels ! y \<longleftrightarrow> (x, y) \<in> conn (edges_of e (nat (n - k)))) \<and>
      (\<forall>x<nat n. \<forall>c. 0 \<le> c \<and> c < labels ! x \<longrightarrow> (\<exists>w<x. labels ! w = c)) \<and>
      set labels = {0..k - 1})"
proof -
  let ?N = "nat n" and ?m = "nat (n - 1)"
  have n0: "0 \<le> n" "int ?m = n - 1" "n < 2 ^ 64" using n by simp_all
  have norej: "\<not> (\<exists>i<?m. rejected e n i)"
  proof
    assume "\<exists>i<?m. rejected e n i"
    then obtain i where i: "i < ?m" "rejected e n i" by blast
    have "e ! (2 * i) \<in> set e" "e ! (2 * i + 1) \<in> set e" using len i(1) by simp_all
    then have "edge_u e i = edge_v e i"
      using i(2) rng by (auto simp: rejected_def edge_u_def edge_v_def)
    then have "edges_of e ?m ! i \<in> conn (edges_of e i)"
      using i(1) by (simp add: edges_of_nth edge_u_def edge_v_def)
    then show False using forest i(1) by blast
  qed
  define dg where "dg = map (\<lambda>v. int (incident_count e ?m (int v))) [0..<?N]"
  have deg: "Cget_graph_node_degrees e (n - 1) n (replicate ?N 0) = ok dg"
    using degrees_eq [OF len, of "replicate ?N 0" n] norej n0 by (simp add: dg_def)
  have srt: "check_sorted d n = ok ()"
    using check_sorted_eq [of d n] d n0 by (simp add: unsorted_iff)
  have new: "CGenie_new d e n False = ok (plain_engine d e n dg)"
    using CGenie_new_eq [OF n0(1), of d e False] srt deg by simp
  define g where "g = linked_engine d e n dg"
  have init: "skiplist_init (plain_engine d e n dg) = ok g"
    unfolding g_def using n0(1) by (rule skiplist_init_plain)
  from do_genie_single [OF g_def n0(3) len rng forest k(1,2)] obtain D
    where run: "do_genie g k 1 = ok (g\<lparr>curidx := n - k, ds := D\<rparr>)"
      and D: "gds_inv D" "ds_n D = ?N" "rank_of (par D) ?N = nat k"
      and cn: "\<And>x y. x < ?N \<Longrightarrow> y < ?N \<Longrightarrow>
           rep_of (par D) x = rep_of (par D) y \<longleftrightarrow> (x, y) \<in> conn (edges_of e (nat (n - k)))"
    by blast
  let ?g2 = "g\<lparr>curidx := n - k, ds := D\<rparr>"
  let ?p = "par D"
  let ?labels = "map (\<lambda>v. int (rank_of ?p (rep_of ?p v))) [0..<?N]"
  have pinv: "par_inv ?p" and plen: "length ?p = ?N"
    using D(1,2) by (simp_all add: gds_inv_def ds_inv_def)
  have "int (nat k) < 2 ^ 31" using k(1,3) by simp
  then have bound: "int (rank_of (par (ds ?g2)) (nat (cg_n ?g2))) < 2 ^ 31"
    using D(3) by (simp add: g_def linked_engine_fields)
  have "\<exists>g'. get_labels ?g2 res =
     ok (g', map (\<lambda>v. int (rank_of (par (ds ?g2)) (rep_of (par (ds ?g2)) v))) [0..<nat (cg_n ?g2)])"
  proof (rule get_labels_plain)
    show "denoise_index_rev ?g2 = map int [0..<nat (cg_n ?g2)]"
      "denoise_index ?g2 = map int [0..<nat (cg_n ?g2)]"
      by (simp_all add: g_def linked_engine_fields)
    show "0 \<le> cg_n ?g2" using n0(1) by (simp add: g_def linked_engine_fields)
    show "cg_n ?g2 < 2 ^ 64" using n0(3) by (simp add: g_def linked_engine_fields)
    show "ds_inv (ds ?g2)" using D(1) by (simp add: gds_inv_def)
    show "ds_n (ds ?g2) = nat (cg_n ?g2)" using D(2) by (simp add: g_def linked_engine_fields)
    show "int (rank_of (par (ds ?g2)) (nat (cg_n ?g2))) < 2 ^ 31" by (rule bound)
    show "length res = nat (cg_n ?g2)" using res by (simp add: g_def linked_engine_fields)
  qed
  then obtain g' where lab: "get_labels ?g2 res = ok (g', ?labels)"
    by (auto simp: g_def linked_engine_fields)
  have cur: "curidx g' = n - k"
  proof -
    from lab obtain rci c where f: "forM [0..cg_n ?g2 - 1] labels_body
        (?g2, replicate (nat (cg_n ?g2)) (- 1), 0, res) = ok (g', rci, c, ?labels)"
      by (auto simp: get_labels_def bindR_eq_ok)
    have "curidx (fst (g', rci, c, ?labels)) = n - k"
    proof (rule forM_partial [OF f, where P = "\<lambda>s. curidx (fst s) = n - k"])
      show "curidx (fst (?g2, replicate (nat (cg_n ?g2)) (- 1), 0::int, res)) = n - k" by simp
    next
      fix i and s t :: "'a CGenie \<times> int list \<times> int \<times> int list"
      assume "labels_body i s = ok t" "curidx (fst s) = n - k"
      then show "curidx (fst t) = n - k"
        using labels_body_curidx [of i s t] by simp
    qed
    then show ?thesis by simp
  qed
  have app: "apply_genie (plain_engine d e n dg) k 1 res = ok (g', ?labels)"
    by (simp add: apply_genie_def init run lab)
  have gl: "genie_labels d e n False k 1 res = ok ?labels"
    by (simp add: genie_labels_def new app)
  have root: "rep_of ?p (rep_of ?p v) = rep_of ?p v" for v
    using pinv by (rule rep_of_idem)
  have nth: "?labels ! x = int (rank_of ?p (rep_of ?p x))" if "x < ?N" for x
    using that by simp
  have eqv: "?labels ! x = ?labels ! y \<longleftrightarrow> (x, y) \<in> conn (edges_of e (nat (n - k)))"
    if "x < ?N" "y < ?N" for x y
    using that cn [OF that] rank_of_inj [OF root root, of x y] by (auto simp: nth)
  have first: "\<exists>w<x. ?labels ! w = c" if x: "x < ?N" and c: "0 \<le> c" "c < ?labels ! x" for x c
  proof -
    have "nat c < rank_of ?p (rep_of ?p x)" using x c by (simp add: nth)
    from rank_of_surj [OF this] obtain r
      where r: "r < rep_of ?p x" "rep_of ?p r = r" "rank_of ?p r = nat c" by blast
    have "r < x" using r(1) rep_of_le [of ?p x] by simp
    moreover have "?labels ! r = c" using r x c \<open>r < x\<close> by (simp add: nth)
    ultimately show ?thesis by blast
  qed
  have range: "set ?labels = {0..k - 1}"
  proof (intro equalityI subsetI)
    fix c
    assume "c \<in> set ?labels"
    then obtain v where v: "v < ?N" "c = int (rank_of ?p (rep_of ?p v))" by auto
    have "rep_of ?p v < ?N" using v(1) rep_of_less_length [of v ?p] plen by simp
    then have "rank_of ?p (rep_of ?p v) < nat k"
      using rank_of_less [OF root, of v ?N] D(3) by simp
    then show "c \<in> {0..k - 1}" using v(2) by simp
  next
    fix c
    assume "c \<in> {0..k - 1}"
    then have "nat c < rank_of ?p ?N" "0 \<le> c" using D(3) by simp_all
    from rank_of_surj [OF this(1)] obtain r
      where r: "r < ?N" "rep_of ?p r = r" "rank_of ?p r = nat c" by blast
    then have "?labels ! r = c" using \<open>0 \<le> c\<close> by (simp add: nth)
    then show "c \<in> set ?labels" using r(1) by (metis length_map length_upt minus_nat.diff_0 nth_mem)
  qed
  have "length ?labels = ?N" by simp
  then show ?thesis
    using get_gini_le_1 new app gl cur eqv first range by blast
qed


theorem C2_single_linkage_witness:
  "(2::int) \<le> 5 \<and> (5::int) < 2 ^ 62
   \<and> length [1, 2, 3, 4 :: int] = nat (5 - 1) \<and> sorted [1, 2, 3, 4 :: int]
   \<and> length [0, 1, 1, 2, 2, 3, 3, 4 :: int] = 2 * nat (5 - 1)
   \<and> list_all (\<lambda>x. 0 \<le> x \<and> x < 5) [0, 1, 1, 2, 2, 3, 3, 4 :: int]
   \<and> edges_of [0, 1, 1, 2, 2, 3, 3, 4] (nat (5 - 1)) = [(0, 1), (1, 2), (2, 3), (3, 4)]
   \<and> (0, 1) \<notin> conn []
   \<and> (1, 2) \<notin> conn [(0, 1)]
   \<and> (2, 3) \<notin> conn [(0, 1), (1, 2)]
   \<and> (3, 4) \<notin> conn [(0, 1), (1, 2), (2, 3)]
   \<and> (1::int) \<le> 2 \<and> (2::int) < 5 \<and> (2::int) < 2 ^ 31 \<and> length [0, 0, 0, 0, 0 :: int] = nat 5
   \<and> genie_labels [1, 2, 3, 4 :: int] [0, 1, 1, 2, 2, 3, 3, 4] 5 False 2 1 [0, 0, 0, 0, 0]
       = ok [0, 0, 0, 0, 1]
   \<and> (3, 0) \<in> conn (edges_of [0, 1, 1, 2, 2, 3, 3, 4] (nat (5 - 2)))
   \<and> (3, 4) \<notin> conn (edges_of [0, 1, 1, 2, 2, 3, 3, 4] (nat (5 - 2)))"
proof -
  let ?e = "[0, 1, 1, 2, 2, 3, 3, 4 :: int]"
  let ?d = "[1, 2, 3, 4 :: int]"
  have n: "(2::int) \<le> 5" "(5::int) < 2 ^ 62" by simp_all
  have d: "length ?d = nat (5 - 1)" "sorted ?d" by simp_all
  have len: "length ?e = 2 * nat (5 - 1)" by simp
  have rng: "list_all (\<lambda>x. 0 \<le> x \<and> x < 5) ?e" by simp
  have rng': "\<forall>x\<in>set ?e. 0 \<le> x \<and> x < 5" by simp
  have E: "edges_of ?e (nat (5 - 1)) = [(0, 1), (1, 2), (2, 3), (3, 4)]"
    "edges_of ?e 0 = []" "edges_of ?e 1 = [(0, 1)]" "edges_of ?e 2 = [(0, 1), (1, 2)]"
    "edges_of ?e 3 = [(0, 1), (1, 2), (2, 3)]"
    by (simp_all add: edges_of_def eval_nat_numeral)
  have E': "edges_of ?e 4 = [(0, 1), (1, 2), (2, 3), (3, 4)]" "edges_of ?e (Suc 0) = [(0, 1)]"
    by (simp_all add: edges_of_def eval_nat_numeral)
  have f0: "(0, 1) \<notin> conn []" by (simp add: conn_Nil)
  have f1: "(1, 2) \<notin> conn [(0, 1)]"
  proof
    assume a: "(1, 2) \<in> conn [(0, 1)]"
    have "((1::nat) \<le> 1) = ((2::nat) \<le> 1)"
      by (rule conn_labelled [OF a, where f = "\<lambda>v. v \<le> 1"]) auto
    then show False by simp
  qed
  have f2: "(2, 3) \<notin> conn [(0, 1), (1, 2)]"
  proof
    assume a: "(2, 3) \<in> conn [(0, 1), (1, 2)]"
    have "((2::nat) \<le> 2) = ((3::nat) \<le> 2)"
      by (rule conn_labelled [OF a, where f = "\<lambda>v. v \<le> 2"]) auto
    then show False by simp
  qed
  have f3: "(3, 4) \<notin> conn [(0, 1), (1, 2), (2, 3)]"
  proof
    assume a: "(3, 4) \<in> conn [(0, 1), (1, 2), (2, 3)]"
    have "((3::nat) \<le> 3) = ((4::nat) \<le> 3)"
      by (rule conn_labelled [OF a, where f = "\<lambda>v. v \<le> 3"]) auto
    then show False by simp
  qed
  have forest: "\<forall>j<nat (5 - 1). edges_of ?e (nat (5 - 1)) ! j \<notin> conn (edges_of ?e j)"
  proof (intro allI impI)
    fix j :: nat
    assume "j < nat (5 - 1)"
    then have "j = 0 \<or> j = 1 \<or> j = 2 \<or> j = 3" by auto
    then show "edges_of ?e (nat (5 - 1)) ! j \<notin> conn (edges_of ?e j)"
      using f0 f1 f2 f3 E E' by auto
  qed
  have k: "(1::int) \<le> 2" "(2::int) < 5" "(2::int) < 2 ^ 31" by simp_all
  have res: "length [0, 0, 0, 0, 0 :: int] = nat 5" by simp
  have run: "genie_labels ?d ?e 5 False 2 1 [0, 0, 0, 0, 0] = ok [0, 0, 0, 0, 1]"
    by code_simp
  from C2_single_linkage [OF n d len rng' forest k res] obtain labels
    where l: "genie_labels ?d ?e 5 False 2 1 [0, 0, 0, 0, 0] = ok labels"
      and c: "\<forall>x<nat 5. \<forall>y<nat 5.
         labels ! x = labels ! y \<longleftrightarrow> (x, y) \<in> conn (edges_of ?e (nat (5 - 2)))"
    by blast
  have labels: "labels = [0, 0, 0, 0, 1]" using l run by simp
  have "labels ! 3 = labels ! 0 \<longleftrightarrow> (3, 0) \<in> conn (edges_of ?e (nat (5 - 2)))"
    "labels ! 3 = labels ! 4 \<longleftrightarrow> (3, 4) \<in> conn (edges_of ?e (nat (5 - 2)))"
    using c by simp_all
  then have "(3, 0) \<in> conn (edges_of ?e (nat (5 - 2)))" "(3, 4) \<notin> conn (edges_of ?e (nat (5 - 2)))"
    unfolding labels by simp_all
  then show ?thesis using n d len rng E(1) f0 f1 f2 f3 k res run by blast
qed


section \<open>The merge driver on a tree\<close>

subsection \<open>The skip-list\<close>

lemma chain_inv_tl:
  assumes "chain_inv ne pe cur S (c # ch)"
  shows "chain_inv ne pe (ne ! c) S ch" "cur = int c" "c < S"
proof -
  have n: "\<forall>i<Suc (length ch). ne ! ((c # ch) ! i) = int (((c # ch) @ [S]) ! Suc i)"
    and p: "\<forall>i<Suc (length ch). 0 < i \<longrightarrow> pe ! ((c # ch) ! i) = int ((c # ch) ! (i - 1))"
    using assms by (simp_all add: chain_inv_def)
  have n0: "ne ! c = int ((ch @ [S]) ! 0)" using n by (auto dest: spec [of _ 0])
  have n1: "ne ! (ch ! i) = int ((ch @ [S]) ! Suc i)" if "i < length ch" for i
    using n that by (auto dest: spec [of _ "Suc i"])
  have p1: "pe ! (ch ! i) = int (ch ! (i - 1))" if "i < length ch" "0 < i" for i
    using p that by (auto dest!: spec [of _ "Suc i"])
  show "chain_inv ne pe (ne ! c) S ch"
    using assms n0 n1 p1 by (simp add: chain_inv_def)
  show "cur = int c" "c < S" using assms by (simp_all add: chain_inv_def)
qed

lemma chain_nth_less:
  "sorted_wrt (<) (ch :: nat list) \<Longrightarrow> i < j \<Longrightarrow> j < length ch \<Longrightarrow> ch ! i < ch ! j"
  by (simp add: sorted_wrt_iff_nth_less)

lemma chain_nth_eq:
  assumes "sorted_wrt (<) (ch :: nat list)" "i < length ch" "j < length ch" "ch ! i = ch ! j"
  shows "i = j"
  using assms chain_nth_less [of ch i j] chain_nth_less [of ch j i]
  by (cases i j rule: linorder_cases) auto

lemma chain_ext_sorted:
  assumes "sorted_wrt (<) (ch :: nat list)" "\<forall>c\<in>set ch. c < S"
  shows "sorted_wrt (<) (ch @ [S])"
  using assms by (simp add: sorted_wrt_append)

lemma chain_ext_nth_less:
  assumes "sorted_wrt (<) (ch :: nat list)" "\<forall>c\<in>set ch. c < S" "i < j" "j \<le> length ch"
  shows "(ch @ [S]) ! i < (ch @ [S]) ! j"
  using chain_ext_sorted [OF assms(1,2)] assms(3,4) by (simp add: sorted_wrt_iff_nth_less)

lemma nth_remove_pos:
  assumes "t < length xs" "i < length xs - 1"
  shows "(take t xs @ drop (Suc t) xs) ! i = (if i < t then xs ! i else xs ! Suc i)"
proof (cases "i < t")
  case True
  then show ?thesis using assms by (simp add: nth_append)
next
  case False
  then have "i - t + Suc t = Suc i" by simp
  then show ?thesis using assms False by (simp add: nth_append min_def)
qed

text \<open>Unlinking the edge at position \<open>t > 0\<close>.\<close>

lemma chain_inv_remove:
  assumes inv: "chain_inv ne pe cur S ch" and t: "0 < t" "t < length ch"
  defines "l \<equiv> (ch @ [S]) ! Suc t" and "q \<equiv> ch ! (t - 1)"
  shows "chain_inv (ne[q := int l]) (pe[l := int q]) cur S (take t ch @ drop (Suc t) ch)"
    and "ne ! (ch ! t) = int l" and "pe ! (ch ! t) = int q"
    and "q < Suc S" and "l < Suc S"
    and "(take t ch @ drop (Suc t) ch @ [S]) ! t = l"
proof -
  let ?ch' = "take t ch @ drop (Suc t) ch"
  have len: "length ne = Suc S" "length pe = Suc S" and srt: "sorted_wrt (<) ch"
    and bnd: "\<forall>c\<in>set ch. c < S" and cur: "cur = int ((ch @ [S]) ! 0)"
    and n: "\<And>i. i < length ch \<Longrightarrow> ne ! (ch ! i) = int ((ch @ [S]) ! Suc i)"
    and p: "\<And>i. i < length ch \<Longrightarrow> 0 < i \<Longrightarrow> pe ! (ch ! i) = int (ch ! (i - 1))"
    using inv by (simp_all add: chain_inv_def)
  show nl: "ne ! (ch ! t) = int l" using n [OF t(2)] by (simp add: l_def)
  show pq: "pe ! (ch ! t) = int q" using p [OF t(2) t(1)] by (simp add: q_def)
  have qS: "q < S" using bnd t by (simp add: q_def)
  then show "q < Suc S" by simp
  have lS: "l \<le> S"
  proof (cases "Suc t < length ch")
    case True
    then show ?thesis using bnd by (simp add: l_def nth_append less_imp_le)
  next
    case False
    then show ?thesis using t by (simp add: l_def nth_append)
  qed
  then show "l < Suc S" by simp
  have len': "length ?ch' = length ch - 1" using t by simp
  have nth': "?ch' ! i = (if i < t then ch ! i else ch ! Suc i)" if "i < length ?ch'" for i
    using nth_remove_pos [of t ch i] that t len' by simp
  have "?ch' @ [S] = take t (ch @ [S]) @ drop (Suc t) (ch @ [S])"
    using t by simp
  then have ext': "(?ch' @ [S]) ! i = (if i < t then (ch @ [S]) ! i else (ch @ [S]) ! Suc i)"
    if "i \<le> length ?ch'" for i
    using nth_remove_pos [of t "ch @ [S]" i] that t len' by simp
  show "(take t ch @ drop (Suc t) ch @ [S]) ! t = l"
    using ext' [of t] t len' by (simp add: l_def)
  have srt': "sorted_wrt (<) ?ch'"
    unfolding sorted_wrt_iff_nth_less
  proof (intro allI impI)
    fix i j
    assume ij: "i < j" "j < length ?ch'"
    then have "(if i < t then i else Suc i) < (if j < t then j else Suc j)"
      "(if j < t then j else Suc j) < length ch"
      using len' t by auto
    then have "ch ! (if i < t then i else Suc i) < ch ! (if j < t then j else Suc j)"
      using srt by (simp add: sorted_wrt_iff_nth_less)
    then show "?ch' ! i < ?ch' ! j"
      using nth' [of i] nth' [of j] ij by (simp split: if_splits)
  qed
  have bnd': "\<forall>c\<in>set ?ch'. c < S"
    using bnd by (auto dest: in_set_takeD in_set_dropD)
  have cur': "cur = int ((?ch' @ [S]) ! 0)"
    using cur ext' [of 0] t by simp
  have ne': "ne[q := int l] ! (?ch' ! i) = int ((?ch' @ [S]) ! Suc i)" if i: "i < length ?ch'" for i
  proof (cases "Suc i = t")
    case True
    then have "?ch' ! i = q" using nth' [OF i] by (auto simp: q_def)
    moreover have "(?ch' @ [S]) ! Suc i = l" using ext' [of "Suc i"] i True by (auto simp: l_def)
    ultimately show ?thesis using qS len by simp
  next
    case False
    have i': "(if i < t then i else Suc i) < length ch" using i len' t by auto
    have neq: "?ch' ! i \<noteq> q"
    proof
      assume "?ch' ! i = q"
      then have "ch ! (if i < t then i else Suc i) = ch ! (t - 1)"
        using nth' [OF i] by (simp add: q_def split: if_splits)
      then have "(if i < t then i else Suc i) = t - 1"
        using chain_nth_eq [OF srt i'] t by simp
      then show False using False t by (auto split: if_splits)
    qed
    have "ne ! (?ch' ! i) = int ((ch @ [S]) ! Suc (if i < t then i else Suc i))"
      using n [OF i'] nth' [OF i] by (auto split: if_splits)
    also have "\<dots> = int ((?ch' @ [S]) ! Suc i)"
      using ext' [of "Suc i"] i False by (auto split: if_splits)
    finally show ?thesis using neq by simp
  qed
  have pe': "pe[l := int q] ! (?ch' ! i) = int (?ch' ! (i - 1))" if i: "i < length ?ch'" "0 < i" for i
  proof (cases "i = t")
    case True
    then have "?ch' ! i = l" using nth' [OF i(1)] i(1) len' by (auto simp: l_def nth_append)
    moreover have "?ch' ! (i - 1) = q" using nth' [of "i - 1"] i True by (auto simp: q_def)
    ultimately show ?thesis using lS len by simp
  next
    case False
    have i': "(if i < t then i else Suc i) < length ch" using i len' t by auto
    have neq: "?ch' ! i \<noteq> l"
    proof
      assume a: "?ch' ! i = l"
      have "Suc t < length ch"
      proof (rule ccontr)
        assume "\<not> Suc t < length ch"
        then have "l = S" using t by (simp add: l_def nth_append)
        then show False using a bnd' i(1) by (metis nth_mem less_irrefl)
      qed
      then have "ch ! (if i < t then i else Suc i) = ch ! Suc t"
        using a nth' [OF i(1)] by (simp add: l_def nth_append split: if_splits)
      then have "(if i < t then i else Suc i) = Suc t"
        using chain_nth_eq [OF srt i'] \<open>Suc t < length ch\<close> by simp
      then show False using False by (auto split: if_splits)
    qed
    have "pe ! (?ch' ! i) = int (ch ! ((if i < t then i else Suc i) - 1))"
      using p [OF i'] nth' [OF i(1)] i(2) by (auto split: if_splits)
    also have "\<dots> = int (?ch' ! (i - 1))"
      using nth' [of "i - 1"] i False by (auto split: if_splits)
    finally show ?thesis using neq by simp
  qed
  show "chain_inv (ne[q := int l]) (pe[l := int q]) cur S ?ch'"
    using len srt' bnd' cur' ne' pe' by (simp add: chain_inv_def)
qed


lemma touches_same_sets: "same_sets D D' \<Longrightarrow> touches mi rv D' m c = touches mi rv D m c"
  by (simp add: touches_def same_sets_def)

lemma edge_ok_reads:
  assumes "edge_ok mi rv N c"
  shows "rd mi (2 * int c) = ok (mi ! (2 * c))"
    and "rd mi (2 * int c + 1) = ok (mi ! Suc (2 * c))"
    and "rd rv (mi ! (2 * c)) = ok (rv ! nat (mi ! (2 * c)))"
    and "rd rv (mi ! Suc (2 * c)) = ok (rv ! nat (mi ! Suc (2 * c)))"
    and "to_ull (rv ! nat (mi ! (2 * c))) = ex_of mi rv c"
    and "to_ull (rv ! nat (mi ! Suc (2 * c))) = ey_of mi rv c"
    and "ex_of mi rv c < N" "ey_of mi rv c < N"
  using assms
  by (simp_all add: edge_ok_def rd_def ex_of_def ey_of_def nat_add_distrib nat_mult_distrib)

text \<open>The walk returns as soon as an edge at or after its starting position touches a set
  of size \<open>m\<close>: it stops at the first such edge.\<close>

lemma genie_walk_total:
  fixes g :: "'a CGenie"
  assumes "gds_inv (ds g)" "ds_n (ds g) = N" "mst_i g = mi" "denoise_index_rev g = rv"
    and "chain_inv (next_edge g) pe cur S ch"
    and "\<forall>c\<in>set ch. edge_ok mi rv N c"
    and "lastidx g = int ((ch @ [S]) ! t)"
    and "t \<le> i" "i < length ch" "touches mi rv (ds g) m (ch ! i)"
  shows "\<exists>g1 t'. genie_walk g m = ok g1 \<and> t \<le> t' \<and> t' \<le> i \<and> lastidx g1 = int (ch ! t') \<and>
      touches mi rv (ds g) m (ch ! t') \<and>
      (\<forall>i'. t \<le> i' \<and> i' < t' \<longrightarrow> \<not> touches mi rv (ds g) m (ch ! i')) \<and>
      same_sets (ds g) (ds g1) \<and> g1 = g\<lparr>ds := ds g1, lastidx := lastidx g1\<rparr>"
  using assms
proof (induction "i - t" arbitrary: g t rule: less_induct)
  case (less t g)
  note inv = less.prems(1) and N = less.prems(2) and mi = less.prems(3) and rv = less.prems(4)
    and chain = less.prems(5) and oks = less.prems(6) and pos = less.prems(7)
    and ti = less.prems(8) and i = less.prems(9) and touch = less.prems(10)
  let ?c = "ch ! t" and ?D = "ds g"
  have t: "t < length ch" using ti i by simp
  then have c_ok: "edge_ok mi rv N ?c" using oks by simp
  note rds = edge_ok_reads [OF c_ok]
  have li: "lastidx g = int ?c" using pos t by (simp add: nth_append)
  let ?D1 = "?D\<lparr>par := compress (par ?D) (ex_of mi rv ?c)\<rparr>"
  have gc1: "get_count ?D (ex_of mi rv ?c) = ok (?D1, cnt ?D ! rep_of (par ?D) (ex_of mi rv ?c))"
    using inv rds(7) N by (simp add: get_count_eq)
  have s1: "same_sets ?D ?D1" using inv by (rule same_sets_compress)
  then have inv1: "gds_inv ?D1" and n1: "ds_n ?D1 = N" and c1: "cnt ?D1 = cnt ?D"
    and r1: "\<And>z. rep_of (par ?D1) z = rep_of (par ?D) z"
    using N by (simp_all add: same_sets_def)
  let ?D2 = "?D1\<lparr>par := compress (par ?D1) (ey_of mi rv ?c)\<rparr>"
  have gc2: "get_count ?D1 (ey_of mi rv ?c) = ok (?D2, cnt ?D ! rep_of (par ?D) (ey_of mi rv ?c))"
    using get_count_eq [OF inv1, of "ey_of mi rv ?c"] rds(8) n1 c1 r1 by simp
  have s2: "same_sets ?D ?D2"
    using s1 same_sets_compress [OF inv1, of "ey_of mi rv ?c"] by (rule same_sets_trans)
  show ?case
  proof (cases "int (cnt ?D ! rep_of (par ?D) (ex_of mi rv ?c)) = m")
    case True
    have w: "genie_walk g m = ok (g\<lparr>ds := ?D1\<rparr>)"
      by (subst genie_walk.simps) (simp add: li mi rv rds gc1 True)
    have "touches mi rv ?D m ?c" using True by (simp add: touches_def)
    then show ?thesis
      using w ti s1 li by (intro exI [of _ "g\<lparr>ds := ?D1\<rparr>"] exI [of _ t]) auto
  next
    case nx: False
    show ?thesis
    proof (cases "int (cnt ?D ! rep_of (par ?D) (ey_of mi rv ?c)) = m")
      case True
      have w: "genie_walk g m = ok (g\<lparr>ds := ?D2\<rparr>)"
        by (subst genie_walk.simps) (simp add: li mi rv rds gc1 gc2 nx True)
      have "touches mi rv ?D m ?c" using True by (simp add: touches_def)
      then show ?thesis
        using w ti s2 li by (intro exI [of _ "g\<lparr>ds := ?D2\<rparr>"] exI [of _ t]) auto
    next
      case ny: False
      have nt: "\<not> touches mi rv ?D m ?c" using nx ny by (simp add: touches_def)
      then have lt: "t < i" using touch ti by (cases "t = i") auto
      have "?c < S" "length (next_edge g) = Suc S"
        using chain t by (simp_all add: chain_inv_def)
      then have "int ?c < int (length (next_edge g))" by simp
      moreover have "next_edge g ! ?c = int ((ch @ [S]) ! Suc t)"
        using chain t by (simp add: chain_inv_def)
      ultimately have nxt: "rd (next_edge g) (int ?c) = ok (int ((ch @ [S]) ! Suc t))"
        by (simp add: rd_def)
      let ?g' = "g\<lparr>ds := ?D2, lastidx := int ((ch @ [S]) ! Suc t)\<rparr>"
      have w: "genie_walk g m = genie_walk ?g' m"
        by (subst genie_walk.simps) (simp add: li mi rv rds gc1 gc2 nx ny nxt)
      have "\<exists>g1 t'. genie_walk ?g' m = ok g1 \<and> Suc t \<le> t' \<and> t' \<le> i \<and> lastidx g1 = int (ch ! t') \<and>
        touches mi rv (ds ?g') m (ch ! t') \<and>
        (\<forall>i'. Suc t \<le> i' \<and> i' < t' \<longrightarrow> \<not> touches mi rv (ds ?g') m (ch ! i')) \<and>
        same_sets (ds ?g') (ds g1) \<and> g1 = ?g'\<lparr>ds := ds g1, lastidx := lastidx g1\<rparr>"
      proof (rule less.hyps [of "Suc t" ?g'])
        show "i - Suc t < i - t" using lt by simp
        show "gds_inv (ds ?g')" using s2 by (simp add: same_sets_def)
        show "ds_n (ds ?g') = N" using N by simp
        show "mst_i ?g' = mi" "denoise_index_rev ?g' = rv" using mi rv by simp_all
        show "chain_inv (next_edge ?g') pe cur S ch" using chain by simp
        show "\<forall>c\<in>set ch. edge_ok mi rv N c" by (rule oks)
        show "lastidx ?g' = int ((ch @ [S]) ! Suc t)" by simp
        show "Suc t \<le> i" using lt by simp
        show "i < length ch" by (rule i)
        show "touches mi rv (ds ?g') m (ch ! i)"
          using touch touches_same_sets [OF s2, of mi rv m "ch ! i"] by simp
      qed
      then obtain g1 t' where g1: "genie_walk ?g' m = ok g1" "Suc t \<le> t'" "t' \<le> i"
          "lastidx g1 = int (ch ! t')" "touches mi rv ?D2 m (ch ! t')"
          "\<forall>i'. Suc t \<le> i' \<and> i' < t' \<longrightarrow> \<not> touches mi rv ?D2 m (ch ! i')"
          "same_sets ?D2 (ds g1)" "g1 = ?g'\<lparr>ds := ds g1, lastidx := lastidx g1\<rparr>"
        by auto
      have a: "\<forall>i'. t \<le> i' \<and> i' < t' \<longrightarrow> \<not> touches mi rv ?D m (ch ! i')"
      proof (intro allI impI)
        fix i'
        assume "t \<le> i' \<and> i' < t'"
        then show "\<not> touches mi rv ?D m (ch ! i')"
          using nt g1(6) touches_same_sets [OF s2, of mi rv m] by (cases "i' = t") auto
      qed
      have b: "g1 = g\<lparr>ds := ds g1, lastidx := lastidx g1\<rparr>"
        by (subst g1(8)) simp
      show ?thesis
        using w g1(1,2,3,4) g1(5) [unfolded touches_same_sets [OF s2]] a
          same_sets_trans [OF s2 g1(7)] b
        by (intro exI [of _ g1] exI [of _ t']) simp
    qed
  qed
qed


subsection \<open>Sizes after a merge\<close>

lemma smallest_attained:
  assumes "gds_inv d" "0 < ds_n d"
  shows "\<exists>r<ds_n d. rep_of (par d) r = r \<and> cnt d ! r = get_smallest_count d"
proof -
  have inv: "par_inv (par d)" and len: "length (par d) = ds_n d"
    using assms(1) by (simp_all add: gds_inv_def ds_inv_def)
  let ?rs = "filter (\<lambda>r. par d ! r = r) [0..<ds_n d]"
  have "rep_of (par d) 0 < ds_n d" "par d ! rep_of (par d) 0 = rep_of (par d) 0"
    using assms(2) inv len rep_of_less_length [of 0 "par d"] by (simp_all add: rep_of_root)
  then have "cnt d ! rep_of (par d) 0 \<in> set (set_sizes d)" by (auto simp: set_sizes_def)
  then have "set_sizes d \<noteq> []" by auto
  then obtain s ss where c: "set_sizes d = s # ss" by (cases "set_sizes d") auto
  then have "s \<in> set (set_sizes d)" by simp
  then have "s \<in> (\<lambda>r. cnt d ! r) ` set ?rs" by (simp add: set_sizes_def)
  then obtain r where "r < ds_n d" "par d ! r = r" "cnt d ! r = s" by auto
  then show ?thesis using c by (auto simp: get_smallest_count_def rep_of_fixed)
qed

lemma size_pos:
  assumes "gds_inv d" "x < ds_n d"
  shows "1 \<le> cnt d ! rep_of (par d) x"
proof -
  have "x \<in> class_of (par d) x"
    using assms by (simp add: class_of_def gds_inv_def ds_inv_def)
  then have "class_of (par d) x \<noteq> {}" by auto
  then show ?thesis using cnt_class [OF assms] by (simp add: Suc_le_eq card_gt_0_iff)
qed

lemma merged_fields:
  "ds_n (merged d x y) = ds_n d" "par (merged d x y) = union_par (par d) x y"
  by (simp_all add: merged_def)

lemma merge_merged:
  assumes "gds_inv d" "x < ds_n d" "y < ds_n d" "rep_of (par d) x \<noteq> rep_of (par d) y"
  shows "CGiniDisjointSets_merge d x y = ok (merged d x y, min (rep_of (par d) x) (rep_of (par d) y))"
    and "gds_inv (merged d x y)"
  using assms CGiniDisjointSets_merge_eq [OF assms(1-3)] gds_inv_merge [OF assms, of "dec_ull (ds_k d)"]
  by (simp_all add: merged_def)

lemma rep_of_merged:
  assumes "gds_inv d" "x < ds_n d" "y < ds_n d" "rep_of (par d) x \<noteq> rep_of (par d) y"
  shows "rep_of (par (merged d x y)) z =
     (if rep_of (par d) z = max (rep_of (par d) x) (rep_of (par d) y)
      then min (rep_of (par d) x) (rep_of (par d) y) else rep_of (par d) z)"
proof -
  have "par_inv (par d)" "length (par d) = ds_n d"
    using assms(1) by (simp_all add: gds_inv_def ds_inv_def)
  then show ?thesis using rep_of_union [of "par d" x y z] assms by (simp add: merged_fields)
qed

lemma rank_of_merged:
  assumes "gds_inv d" "x < ds_n d" "y < ds_n d" "rep_of (par d) x \<noteq> rep_of (par d) y"
  shows "rank_of (par (merged d x y)) (ds_n d) = rank_of (par d) (ds_n d) - 1"
proof -
  have "par_inv (par d)" "length (par d) = ds_n d"
    using assms(1) by (simp_all add: gds_inv_def ds_inv_def)
  then show ?thesis using rank_of_union [of "par d" x y] assms by (simp add: merged_fields)
qed

lemma size_merged:
  assumes inv: "gds_inv d" and xy: "x < ds_n d" "y < ds_n d"
    and ne: "rep_of (par d) x \<noteq> rep_of (par d) y"
  shows "cnt (merged d x y) ! rep_of (par (merged d x y)) z =
     (if rep_of (par d) z = rep_of (par d) x \<or> rep_of (par d) z = rep_of (par d) y
      then cnt d ! rep_of (par d) x + cnt d ! rep_of (par d) y
      else cnt d ! rep_of (par d) z)"
proof -
  let ?rx = "rep_of (par d) x" and ?ry = "rep_of (par d) y"
  have len: "length (par d) = ds_n d" "length (cnt d) = ds_n d"
    using inv by (simp_all add: gds_inv_def ds_inv_def)
  have lt: "?rx < ds_n d" "?ry < ds_n d"
    using xy len rep_of_less_length [of _ "par d"] by simp_all
  then have m: "min ?rx ?ry < length (cnt d)" using len by (simp add: min_def)
  have c: "cnt (merged d x y) = (cnt d)[min ?rx ?ry := cnt d ! min ?rx ?ry + cnt d ! max ?rx ?ry]"
    by (simp add: merged_def)
  show ?thesis
    unfolding rep_of_merged [OF assms] c using ne m
    by (auto simp: min_def max_def)
qed

lemma smallest_merged:
  assumes inv: "gds_inv d" and xy: "x < ds_n d" "y < ds_n d"
    and ne: "rep_of (par d) x \<noteq> rep_of (par d) y"
  shows "get_smallest_count d \<le> get_smallest_count (merged d x y)"
proof -
  note m = merge_merged(2) [OF assms]
  have "0 < ds_n (merged d x y)" using xy by (simp add: merged_fields)
  from smallest_attained [OF m this] obtain r
    where r: "r < ds_n d" "rep_of (par (merged d x y)) r = r"
      "cnt (merged d x y) ! r = get_smallest_count (merged d x y)"
    by (auto simp: merged_fields)
  have "get_smallest_count d \<le> cnt (merged d x y) ! rep_of (par (merged d x y)) r"
    unfolding size_merged [OF assms]
    using smallest_le [OF inv xy(1)] smallest_le [OF inv r(1)] by simp
  then show ?thesis using r by simp
qed

lemma not_touches_merged:
  assumes inv: "gds_inv d" and xy: "x < ds_n d" "y < ds_n d"
    and ne: "rep_of (par d) x \<noteq> rep_of (par d) y"
    and nt: "\<not> touches mi rv d (int (get_smallest_count d)) c"
  shows "\<not> touches mi rv (merged d x y) (int (get_smallest_count d)) c"
proof -
  have "get_smallest_count d < cnt d ! rep_of (par d) x + cnt d ! rep_of (par d) y"
    using smallest_le [OF inv xy(1)] size_pos [OF inv xy(2)] by simp
  then show ?thesis
    using nt unfolding touches_def size_merged [OF inv xy ne] by auto
qed

lemma conn_merged:
  assumes inv: "gds_inv d" and N: "ds_n d = N" and xy: "x < N" "y < N"
    and ne: "rep_of (par d) x \<noteq> rep_of (par d) y"
    and cn: "\<forall>a<N. \<forall>b<N. rep_of (par d) a = rep_of (par d) b \<longleftrightarrow> (a, b) \<in> conn E"
    and ab: "a < N" "b < N"
  shows "rep_of (par (merged d x y)) a = rep_of (par (merged d x y)) b
      \<longleftrightarrow> (a, b) \<in> conn (E @ [(x, y)])"
proof -
  have c: "(a, b) \<in> conn E \<longleftrightarrow> rep_of (par d) a = rep_of (par d) b"
    "(a, x) \<in> conn E \<longleftrightarrow> rep_of (par d) a = rep_of (par d) x"
    "(a, y) \<in> conn E \<longleftrightarrow> rep_of (par d) a = rep_of (par d) y"
    "(x, b) \<in> conn E \<longleftrightarrow> rep_of (par d) x = rep_of (par d) b"
    "(y, b) \<in> conn E \<longleftrightarrow> rep_of (par d) y = rep_of (par d) b"
    using cn xy ab by simp_all
  have r: "rep_of (par (merged d x y)) z =
     (if rep_of (par d) z = max (rep_of (par d) x) (rep_of (par d) y)
      then min (rep_of (par d) x) (rep_of (par d) y) else rep_of (par d) z)" for z
    using rep_of_merged [OF inv, of x y z] xy ne N by simp
  show ?thesis
    unfolding conn_snoc c r using ne
    by (auto simp: min_def max_def split: if_splits)
qed


subsection \<open>A smallest set has an edge left\<close>

lemma rd_nat: "i < length xs \<Longrightarrow> rd xs (int i) = ok (xs ! i)"
  by (simp add: rd_def)

lemma wr_nat: "i < length xs \<Longrightarrow> wr xs (int i) v = ok (xs[i := v])"
  by (simp add: wr_def)

lemma two_roots:
  assumes "2 \<le> rank_of p N"
  shows "\<exists>r'<N. rep_of p r' = r' \<and> r' \<noteq> r"
proof -
  from rank_of_surj [of 0 p N] assms obtain r0
    where r0: "r0 < N" "rep_of p r0 = r0" "rank_of p r0 = 0" by auto
  from rank_of_surj [of 1 p N] assms obtain r1
    where r1: "r1 < N" "rep_of p r1 = r1" "rank_of p r1 = 1" by auto
  have "r0 \<noteq> r1" using r0(3) r1(3) by auto
  then show ?thesis using r0 r1 by (cases "r0 = r") auto
qed

lemma exists_touching:
  assumes inv: "gds_inv D" and N: "ds_n D = N" and rk: "2 \<le> rank_of (par D) N"
    and tree: "tree_edges mi rv N ch0"
    and part: "set ch \<union> set dn = set ch0"
    and cn: "\<forall>x<N. \<forall>y<N. rep_of (par D) x = rep_of (par D) y
        \<longleftrightarrow> (x, y) \<in> conn (map (pair_of mi rv) dn)"
  shows "\<exists>i<length ch. touches mi rv D (int (get_smallest_count D)) (ch ! i)"
proof -
  have "N \<noteq> 0"
  proof
    assume "N = 0"
    then show False using rk by (simp add: rank_of_def)
  qed
  then have "0 < ds_n D" using N by simp
  from smallest_attained [OF inv this] obtain r
    where r: "r < N" "rep_of (par D) r = r" "cnt D ! r = get_smallest_count D"
    using N by auto
  from two_roots [OF rk, of r] obtain r'
    where r': "r' < N" "rep_of (par D) r' = r'" "r' \<noteq> r" by auto
  have cr: "(r, r') \<in> conn (map (pair_of mi rv) ch0)"
    using tree r(1) r'(1) by (simp add: tree_edges_def)
  have "\<exists>c\<in>set ch0. (rep_of (par D) (ex_of mi rv c) = r) \<noteq> (rep_of (par D) (ey_of mi rv c) = r)"
  proof (rule ccontr)
    assume a: "\<not> ?thesis"
    have "(rep_of (par D) r = r) = (rep_of (par D) r' = r)"
    proof (rule conn_labelled [OF cr])
      fix a b
      assume "(a, b) \<in> set (map (pair_of mi rv) ch0)"
      then show "(rep_of (par D) a = r) = (rep_of (par D) b = r)"
        using a by (auto simp: pair_of_def)
    qed
    then show False using r r' by simp
  qed
  then obtain c where c: "c \<in> set ch0"
    "(rep_of (par D) (ex_of mi rv c) = r) \<noteq> (rep_of (par D) (ey_of mi rv c) = r)"
    by blast
  have lt: "ex_of mi rv c < N" "ey_of mi rv c < N"
    using tree c(1) by (simp_all add: tree_edges_def edge_ok_def)
  have "c \<notin> set dn"
  proof
    assume "c \<in> set dn"
    then have "(ex_of mi rv c, ey_of mi rv c) \<in> set (map (pair_of mi rv) dn)"
      by (auto simp: pair_of_def)
    then have "(ex_of mi rv c, ey_of mi rv c) \<in> conn (map (pair_of mi rv) dn)"
      by (rule conn_edge)
    then have "rep_of (par D) (ex_of mi rv c) = rep_of (par D) (ey_of mi rv c)"
      using cn lt by simp
    then show False using c(2) by simp
  qed
  then have "c \<in> set ch" using part c(1) by auto
  then obtain i where "i < length ch" "ch ! i = c" by (auto simp: in_set_conv_nth)
  moreover have "touches mi rv D (int (get_smallest_count D)) c"
    using c(2) r(3) by (auto simp: touches_def)
  ultimately show ?thesis by auto
qed

lemma bridge_reps:
  assumes tree: "tree_edges mi rv N ch0" and c: "c \<in> set ch0" "c \<notin> set dn"
    and sub: "set dn \<subseteq> set ch0"
    and cn: "\<forall>x<N. \<forall>y<N. rep_of (par D) x = rep_of (par D) y
        \<longleftrightarrow> (x, y) \<in> conn (map (pair_of mi rv) dn)"
  shows "rep_of (par D) (ex_of mi rv c) \<noteq> rep_of (par D) (ey_of mi rv c)"
proof
  assume eq: "rep_of (par D) (ex_of mi rv c) = rep_of (par D) (ey_of mi rv c)"
  have lt: "ex_of mi rv c < N" "ey_of mi rv c < N"
    using tree c(1) by (simp_all add: tree_edges_def edge_ok_def)
  have "(ex_of mi rv c, ey_of mi rv c) \<in> conn (map (pair_of mi rv) dn)"
    using cn lt eq by simp
  moreover have "set (map (pair_of mi rv) dn) \<subseteq> set (map (pair_of mi rv) (removeAll c ch0))"
    using c(2) sub by auto
  ultimately have "(ex_of mi rv c, ey_of mi rv c) \<in> conn (map (pair_of mi rv) (removeAll c ch0))"
    by (rule conn_mono [rotated])
  then show False using tree c(1) by (simp add: tree_edges_def pair_of_def)
qed

lemma same_sets_smallest:
  assumes "gds_inv d" "same_sets d d'"
  shows "get_smallest_count d' = get_smallest_count d"
  using same_sets_sizes [OF assms] by (simp add: get_smallest_count_def)

lemma same_sets_rank:
  assumes "same_sets d d'"
  shows "rank_of (par d') N = rank_of (par d) N"
  using assms by (simp add: rank_of_def same_sets_def)

text \<open>The merge that ends an iteration, for an edge \<open>c\<close> that has not been consumed.\<close>

lemma drv_merge:
  fixes g1 :: "'a CGenie"
  assumes tree: "tree_edges mi rv N ch0"
    and inv: "gds_inv D" and N: "ds_n D = N" and rk: "rank_of (par D) N = N - j"
    and cn: "\<forall>x<N. \<forall>y<N. rep_of (par D) x = rep_of (par D) y
        \<longleftrightarrow> (x, y) \<in> conn (map (pair_of mi rv) dn)"
    and c: "c \<in> set ch0" "c \<notin> set dn" and sub: "set dn \<subseteq> set ch0"
    and g1: "mst_i g1 = mi" "denoise_index_rev g1 = rv" "same_sets D (ds g1)"
  defines "D' \<equiv> merged (ds g1) (ex_of mi rv c) (ey_of mi rv c)"
  shows "genie_merge g1 (mi ! (2 * c)) (mi ! Suc (2 * c)) = ok (g1\<lparr>ds := D'\<rparr>)"
    and "gds_inv D'" and "ds_n D' = N" and "rank_of (par D') N = N - Suc j"
    and "\<forall>x<N. \<forall>y<N. rep_of (par D') x = rep_of (par D') y
        \<longleftrightarrow> (x, y) \<in> conn (map (pair_of mi rv) (dn @ [c]))"
    and "get_smallest_count D \<le> get_smallest_count D'"
    and "\<And>c'. \<not> touches mi rv D (int (get_smallest_count D)) c'
        \<Longrightarrow> \<not> touches mi rv D' (int (get_smallest_count D)) c'"
proof -
  let ?x = "ex_of mi rv c" and ?y = "ey_of mi rv c" and ?D1 = "ds g1"
  have c_ok: "edge_ok mi rv N c" using tree c(1) by (simp add: tree_edges_def)
  note rds = edge_ok_reads [OF c_ok]
  have inv1: "gds_inv ?D1" and n1: "ds_n ?D1 = N"
    and r1: "\<And>z. rep_of (par ?D1) z = rep_of (par D) z"
    using g1(3) N by (simp_all add: same_sets_def)
  have sc1: "get_smallest_count ?D1 = get_smallest_count D"
    using inv g1(3) by (rule same_sets_smallest)
  have ne: "rep_of (par ?D1) ?x \<noteq> rep_of (par ?D1) ?y"
    unfolding r1 using tree c sub cn by (rule bridge_reps)
  have xy: "?x < ds_n ?D1" "?y < ds_n ?D1" using rds(7,8) n1 by simp_all
  note mm = merge_merged [OF inv1 xy ne]
  show "genie_merge g1 (mi ! (2 * c)) (mi ! Suc (2 * c)) = ok (g1\<lparr>ds := D'\<rparr>)"
    using rds mm(1) by (simp add: genie_merge_def g1 D'_def)
  show "gds_inv D'" using mm(2) by (simp add: D'_def)
  show "ds_n D' = N" using n1 by (simp add: D'_def merged_fields)
  show "rank_of (par D') N = N - Suc j"
    using rank_of_merged [OF inv1 xy ne] same_sets_rank [OF g1(3), of N] rk n1
    by (simp add: D'_def)
  have cn1: "\<forall>a<N. \<forall>b<N. rep_of (par ?D1) a = rep_of (par ?D1) b
        \<longleftrightarrow> (a, b) \<in> conn (map (pair_of mi rv) dn)"
    unfolding r1 by (rule cn)
  show "\<forall>x<N. \<forall>y<N. rep_of (par D') x = rep_of (par D') y
        \<longleftrightarrow> (x, y) \<in> conn (map (pair_of mi rv) (dn @ [c]))"
    using conn_merged [OF inv1 n1 rds(7,8) ne cn1]
    by (simp add: D'_def pair_of_def)
  show "get_smallest_count D \<le> get_smallest_count D'"
    using smallest_merged [OF inv1 xy ne] sc1 by (simp add: D'_def)
  show "\<not> touches mi rv D' (int (get_smallest_count D)) c'"
    if "\<not> touches mi rv D (int (get_smallest_count D)) c'" for c'
  proof -
    have "\<not> touches mi rv ?D1 (int (get_smallest_count ?D1)) c'"
      using that touches_same_sets [OF g1(3), of mi rv] sc1 by simp
    from not_touches_merged [OF inv1 xy ne this] show ?thesis
      by (simp add: D'_def sc1)
  qed
qed


subsection \<open>The two branches of an iteration\<close>

lemma genie_branch_total:
  fixes g :: "'a CGenie"
  assumes inv: "gds_inv (ds g)" and N: "ds_n (ds g) = N"
    and mi: "mst_i g = mi" and rv: "denoise_index_rev g = rv"
    and chain: "chain_inv (next_edge g) (prev_edge g) (curidx g) S ch"
    and oks: "\<forall>c\<in>set ch. edge_ok mi rv N c"
    and memo: "lastidx g < curidx g \<or>
         (\<exists>t\<le>length ch. lastidx g = int ((ch @ [S]) ! t) \<and>
            (int (get_smallest_count (ds g)) = lastm \<longrightarrow>
               (\<forall>i<t. \<not> touches mi rv (ds g) lastm (ch ! i))))"
    and ex: "\<exists>i<length ch. touches mi rv (ds g) (int (get_smallest_count (ds g))) (ch ! i)"
  shows "\<exists>g2 t. genie_branch g lastm
        = ok (g2, mi ! (2 * (ch ! t)), mi ! Suc (2 * (ch ! t)), int (get_smallest_count (ds g))) \<and>
      t < length ch \<and> mst_i g2 = mi \<and> denoise_index_rev g2 = rv \<and> same_sets (ds g) (ds g2) \<and>
      chain_inv (next_edge g2) (prev_edge g2) (curidx g2) S (take t ch @ drop (Suc t) ch) \<and>
      lastidx g2 = int (((take t ch @ drop (Suc t) ch) @ [S]) ! t) \<and>
      (\<forall>i<t. \<not> touches mi rv (ds g) (int (get_smallest_count (ds g))) (ch ! i))"
proof -
  let ?m = "int (get_smallest_count (ds g))"
  let ?ne = "next_edge g" and ?pe = "prev_edge g"
  define g0 where "g0 = (if ?m \<noteq> lastm \<or> lastidx g < curidx g then g\<lparr>lastidx := curidx g\<rparr> else g)"
  have g0: "ds g0 = ds g" "mst_i g0 = mi" "denoise_index_rev g0 = rv" "next_edge g0 = ?ne"
    "prev_edge g0 = ?pe" "curidx g0 = curidx g"
    using mi rv by (simp_all add: g0_def)
  have cur: "curidx g = int ((ch @ [S]) ! 0)" and len: "length ?ne = Suc S" "length ?pe = Suc S"
    and srt: "sorted_wrt (<) ch" and bnd: "\<forall>c\<in>set ch. c < S"
    using chain by (simp_all add: chain_inv_def)
  have "\<exists>t0\<le>length ch. lastidx g0 = int ((ch @ [S]) ! t0) \<and>
      (\<forall>i<t0. \<not> touches mi rv (ds g) ?m (ch ! i))"
  proof (cases "?m \<noteq> lastm \<or> lastidx g < curidx g")
    case True
    then have "lastidx g0 = int ((ch @ [S]) ! 0)" using cur by (simp add: g0_def)
    then show ?thesis by (intro exI [of _ 0]) simp
  next
    case False
    then have "lastidx g0 = lastidx g" "?m = lastm" "\<not> lastidx g < curidx g"
      by (simp_all add: g0_def)
    then show ?thesis using memo by auto
  qed
  then obtain t0 where t0: "t0 \<le> length ch" "lastidx g0 = int ((ch @ [S]) ! t0)"
    "\<forall>i<t0. \<not> touches mi rv (ds g) ?m (ch ! i)" by blast
  from ex obtain i where i: "i < length ch" "touches mi rv (ds g) ?m (ch ! i)" by blast
  have t0i: "t0 \<le> i" using t0(3) i(2) by (cases "t0 \<le> i") auto
  have "\<exists>g1 t'. genie_walk g0 ?m = ok g1 \<and> t0 \<le> t' \<and> t' \<le> i \<and> lastidx g1 = int (ch ! t') \<and>
      touches mi rv (ds g0) ?m (ch ! t') \<and>
      (\<forall>i'. t0 \<le> i' \<and> i' < t' \<longrightarrow> \<not> touches mi rv (ds g0) ?m (ch ! i')) \<and>
      same_sets (ds g0) (ds g1) \<and> g1 = g0\<lparr>ds := ds g1, lastidx := lastidx g1\<rparr>"
  proof (rule genie_walk_total)
    show "gds_inv (ds g0)" "ds_n (ds g0) = N" "mst_i g0 = mi" "denoise_index_rev g0 = rv"
      using inv N g0 by simp_all
    show "chain_inv (next_edge g0) ?pe (curidx g) S ch" using chain g0 by simp
    show "\<forall>c\<in>set ch. edge_ok mi rv N c" by (rule oks)
    show "lastidx g0 = int ((ch @ [S]) ! t0)" by (rule t0)
    show "t0 \<le> i" "i < length ch" by (rule t0i, rule i)
    show "touches mi rv (ds g0) ?m (ch ! i)" using i(2) g0 by simp
  qed
  then obtain g1 t' where w: "genie_walk g0 ?m = ok g1" and t': "t0 \<le> t'" "t' \<le> i"
    and l1: "lastidx g1 = int (ch ! t')"
    and nt: "\<forall>i'. t0 \<le> i' \<and> i' < t' \<longrightarrow> \<not> touches mi rv (ds g) ?m (ch ! i')"
    and ss: "same_sets (ds g) (ds g1)" and eq: "g1 = g0\<lparr>ds := ds g1, lastidx := lastidx g1\<rparr>"
    unfolding g0(1) by blast
  have g1: "mst_i g1 = mi" "denoise_index_rev g1 = rv" "next_edge g1 = ?ne" "prev_edge g1 = ?pe"
    "curidx g1 = curidx g"
    by (subst eq, simp add: g0)+
  have tl: "t' < length ch" using t'(2) i(1) by simp
  let ?c = "ch ! t'"
  have c_ok: "edge_ok mi rv N ?c" using oks tl by simp
  note rds = edge_ok_reads [OF c_ok]
  have cS: "?c < S" using bnd tl by simp
  have nts: "\<forall>i<t'. \<not> touches mi rv (ds g) ?m (ch ! i)"
  proof (intro allI impI)
    fix i' assume "i' < t'"
    then show "\<not> touches mi rv (ds g) ?m (ch ! i')"
      using t0(3) nt by (cases "i' < t0") auto
  qed
  have br: "genie_branch g lastm =
     bindR (genie_walk g0 ?m) (\<lambda>g1.
        bindR (rd (mst_i g1) (2 * lastidx g1 + 0)) (\<lambda>i1.
        bindR (rd (mst_i g1) (2 * lastidx g1 + 1)) (\<lambda>i2.
        bindR (if lastidx g1 = curidx g1 then
                 bindR (rd (next_edge g1) (curidx g1)) (\<lambda>c.
                 ok (g1\<lparr>curidx := c, lastidx := c\<rparr>))
               else
                 bindR (rd (prev_edge g1) (lastidx g1)) (\<lambda>previdx.
                 bindR (rd (next_edge g1) (lastidx g1)) (\<lambda>l.
                 bindR (wr (next_edge g1) previdx l) (\<lambda>ne.
                 bindR (wr (prev_edge g1) l previdx) (\<lambda>pe.
                 ok (g1\<lparr>lastidx := l, next_edge := ne, prev_edge := pe\<rparr>)))))) (\<lambda>g2.
        ok (g2, i1, i2, ?m)))))"
    unfolding genie_branch_def Let_def g0_def [symmetric] by (rule refl)
  show ?thesis
  proof (cases "t' = 0")
    case True
    obtain c' ch' where ch: "ch = c' # ch'" using tl by (cases ch) auto
    have c': "?c = c'" using True ch by simp
    note tlc = chain_inv_tl [OF chain [unfolded ch]]
    have nx: "rd ?ne (int c') = ok (?ne ! c')" using cS c' len by (simp add: rd_nat)
    have same: "lastidx g1 = curidx g1" using l1 g1 tlc(2) c' by simp
    let ?g2 = "g1\<lparr>curidx := ?ne ! c', lastidx := ?ne ! c'\<rparr>"
    have "genie_branch g lastm = ok (?g2, mi ! (2 * ?c), mi ! Suc (2 * ?c), ?m)"
      unfolding br w using same rds(1,2) nx g1 l1 c' tlc(2) by simp
    moreover have "chain_inv (next_edge ?g2) (prev_edge ?g2) (curidx ?g2) S (take t' ch @ drop (Suc t') ch)"
      using tlc(1) True ch g1 by simp
    moreover have "lastidx ?g2 = int (((take t' ch @ drop (Suc t') ch) @ [S]) ! t')"
      using tlc(1) True ch by (simp add: chain_inv_def)
    ultimately show ?thesis
      using tl g1 ss nts by (intro exI [of _ ?g2] exI [of _ t']) simp
  next
    case False
    then have tp: "0 < t'" by simp
    define l where "l = (ch @ [S]) ! Suc t'"
    define q where "q = ch ! (t' - 1)"
    note rm = chain_inv_remove [OF chain tp tl, folded l_def q_def]
    have "ch ! 0 < ?c" using srt tp tl by (simp add: chain_nth_less)
    moreover have "curidx g1 = int (ch ! 0)" using g1 cur tl by (cases ch) simp_all
    ultimately have diff: "lastidx g1 \<noteq> curidx g1" using l1 by simp
    have r1: "rd ?pe (int ?c) = ok (int q)" using cS len rm(3) by (simp add: rd_nat)
    have r2: "rd ?ne (int ?c) = ok (int l)" using cS len rm(2) by (simp add: rd_nat)
    have w1: "wr ?ne (int q) (int l) = ok (?ne[q := int l])" using rm(4) len by (simp add: wr_nat)
    have w2: "wr ?pe (int l) (int q) = ok (?pe[l := int q])" using rm(5) len by (simp add: wr_nat)
    let ?g2 = "g1\<lparr>lastidx := int l, next_edge := ?ne[q := int l], prev_edge := ?pe[l := int q]\<rparr>"
    have "genie_branch g lastm = ok (?g2, mi ! (2 * ?c), mi ! Suc (2 * ?c), ?m)"
      unfolding br w using diff rds(1,2) r1 r2 w1 w2 g1 l1 by simp
    moreover have "chain_inv (next_edge ?g2) (prev_edge ?g2) (curidx ?g2) S (take t' ch @ drop (Suc t') ch)"
      using rm(1) g1 by simp
    moreover have "lastidx ?g2 = int (((take t' ch @ drop (Suc t') ch) @ [S]) ! t')"
      using rm(6) by simp
    ultimately show ?thesis
      using tl g1 ss nts by (intro exI [of _ ?g2] exI [of _ t']) simp
  qed
qed


lemma chain_distinct: "sorted_wrt (<) (ch :: nat list) \<Longrightarrow> distinct ch"
  unfolding distinct_conv_nth by (metis chain_nth_eq)

lemma set_remove_nth:
  assumes "sorted_wrt (<) (ch :: nat list)" "t < length ch"
  shows "set (take t ch @ drop (Suc t) ch) = set ch - {ch ! t}"
proof -
  have "distinct ch" using assms(1) by (rule chain_distinct)
  moreover have "ch = take t ch @ ch ! t # drop (Suc t) ch"
    using assms(2) by (rule id_take_nth_drop)
  ultimately have "distinct (take t ch @ ch ! t # drop (Suc t) ch)"
    "set ch = set (take t ch @ ch ! t # drop (Suc t) ch)" by simp_all
  then show ?thesis by auto
qed

text \<open>One iteration of the loop of \<open>do_genie\<close> on a tree, while at least two sets are
  left: it returns, whichever branch the Gini index selects.\<close>

lemma genie_iter_total:
  fixes s :: "'a CGenie \<times> int"
  assumes tree: "tree_edges mi rv N ch0" and j: "j + 2 \<le> N"
    and s: "drv_inv mi rv N S ch0 j s"
  shows "\<exists>s'. genie_iter thr i s = ok s' \<and> drv_inv mi rv N S ch0 (Suc j) s'"
proof -
  from s obtain g lastm ch dn
    where s_eq: "s = (g, lastm)" and mi: "mst_i g = mi" and rv: "denoise_index_rev g = rv"
      and inv: "gds_inv (ds g)" and N: "ds_n (ds g) = N"
      and rk: "rank_of (par (ds g)) N = N - j"
      and lm: "lastm \<le> int (get_smallest_count (ds g))"
      and chain: "chain_inv (next_edge g) (prev_edge g) (curidx g) S ch"
      and part: "set ch \<union> set dn = set ch0" and disj: "set ch \<inter> set dn = {}"
      and cn: "\<forall>x<N. \<forall>y<N. rep_of (par (ds g)) x = rep_of (par (ds g)) y
             \<longleftrightarrow> (x, y) \<in> conn (map (pair_of mi rv) dn)"
      and memo: "lastidx g < curidx g \<or>
         (\<exists>t\<le>length ch. lastidx g = int ((ch @ [S]) ! t) \<and>
            (int (get_smallest_count (ds g)) = lastm \<longrightarrow>
               (\<forall>i<t. \<not> touches mi rv (ds g) lastm (ch ! i))))"
    unfolding drv_inv_def by blast
  let ?D = "ds g" and ?m = "int (get_smallest_count (ds g))"
  have rk2: "2 \<le> rank_of (par ?D) N" using rk j by simp
  have sub: "set dn \<subseteq> set ch0" "set ch \<subseteq> set ch0" using part by auto
  have oks: "\<forall>c\<in>set ch. edge_ok mi rv N c" using tree sub(2) by (auto simp: tree_edges_def)
  note ex = exists_touching [OF inv N rk2 tree part cn]
  have srt: "sorted_wrt (<) ch" and bnd: "\<forall>c\<in>set ch. c < S"
    using chain by (simp_all add: chain_inv_def)
  show ?thesis
  proof (cases "get_gini ?D > thr")
    case True
    from genie_branch_total [OF inv N mi rv chain oks memo ex] obtain g2 t
      where br: "genie_branch g lastm = ok (g2, mi ! (2 * (ch ! t)), mi ! Suc (2 * (ch ! t)), ?m)"
        and t: "t < length ch" and g2: "mst_i g2 = mi" "denoise_index_rev g2 = rv"
        and ss: "same_sets ?D (ds g2)"
        and chain2: "chain_inv (next_edge g2) (prev_edge g2) (curidx g2) S (take t ch @ drop (Suc t) ch)"
        and l2: "lastidx g2 = int (((take t ch @ drop (Suc t) ch) @ [S]) ! t)"
        and nts: "\<forall>i<t. \<not> touches mi rv ?D ?m (ch ! i)"
      by blast
    let ?c = "ch ! t" and ?ch' = "take t ch @ drop (Suc t) ch"
    have "?c \<in> set ch" using t by simp
    then have c: "?c \<in> set ch0" "?c \<notin> set dn" using sub(2) disj by auto
    note dm = drv_merge [OF tree inv N rk cn c sub(1) g2 ss]
    let ?D' = "merged (ds g2) (ex_of mi rv ?c) (ey_of mi rv ?c)"
    let ?g' = "g2\<lparr>ds := ?D'\<rparr>"
    have it: "genie_iter thr i s = ok (?g', ?m)"
      unfolding s_eq genie_iter_def using True br dm(1) by simp
    have sets: "set ?ch' = set ch - {?c}" using srt t by (rule set_remove_nth)
    have "drv_inv mi rv N S ch0 (Suc j) (?g', ?m)"
      unfolding drv_inv_def
    proof (rule exI [of _ ?g'], rule exI [of _ ?m], rule exI [of _ ?ch'],
        rule exI [of _ "dn @ [?c]"], intro conjI)
      show "(?g', ?m) = (?g', ?m)" by (rule refl)
      show "mst_i ?g' = mi" "denoise_index_rev ?g' = rv" using g2 by simp_all
      show "gds_inv (ds ?g')" "ds_n (ds ?g') = N" "rank_of (par (ds ?g')) N = N - Suc j"
        using dm(2,3,4) by simp_all
      show "?m \<le> int (get_smallest_count (ds ?g'))" using dm(6) by simp
      show "chain_inv (next_edge ?g') (prev_edge ?g') (curidx ?g') S ?ch'" using chain2 by simp
      show "set ?ch' \<union> set (dn @ [?c]) = set ch0"
        unfolding sets using part t by auto
      show "set ?ch' \<inter> set (dn @ [?c]) = {}"
        unfolding sets using disj by auto
      show "\<forall>x<N. \<forall>y<N. rep_of (par (ds ?g')) x = rep_of (par (ds ?g')) y
             \<longleftrightarrow> (x, y) \<in> conn (map (pair_of mi rv) (dn @ [?c]))"
        using dm(5) by simp
      have "t \<le> length ?ch'" using t by simp
      moreover have "lastidx ?g' = int ((?ch' @ [S]) ! t)" using l2 by simp
      moreover have "\<forall>i<t. \<not> touches mi rv (ds ?g') ?m (?ch' ! i)"
      proof (intro allI impI)
        fix i' assume i': "i' < t"
        then have "?ch' ! i' = ch ! i'" using t by (simp add: nth_append)
        then show "\<not> touches mi rv (ds ?g') ?m (?ch' ! i')"
          using dm(7) [of "ch ! i'"] nts i' by simp
      qed
      ultimately show "lastidx ?g' < curidx ?g' \<or>
         (\<exists>t\<le>length ?ch'. lastidx ?g' = int ((?ch' @ [S]) ! t) \<and>
            (int (get_smallest_count (ds ?g')) = ?m \<longrightarrow>
               (\<forall>i<t. \<not> touches mi rv (ds ?g') ?m (?ch' ! i))))"
        by blast
    qed
    then show ?thesis using it by blast
  next
    case False
    from ex obtain c ch' where ch: "ch = c # ch'" by (cases ch) auto
    note tlc = chain_inv_tl [OF chain [unfolded ch]]
    have c_in: "c \<in> set ch0" "c \<notin> set dn" using ch sub(2) disj by auto
    have c_ok: "edge_ok mi rv N c" using oks ch by simp
    note rds = edge_ok_reads [OF c_ok]
    have len: "length (next_edge g) = Suc S" using chain by (simp add: chain_inv_def)
    have nx: "rd (next_edge g) (int c) = ok (next_edge g ! c)"
      using tlc(3) len by (simp add: rd_nat)
    let ?g1 = "g\<lparr>curidx := next_edge g ! c\<rparr>"
    have sb: "single_branch g lastm = ok (?g1, mi ! (2 * c), mi ! Suc (2 * c), lastm)"
      using rds(1,2) nx by (simp add: single_branch_def tlc(2) mi)
    have g1: "mst_i ?g1 = mi" "denoise_index_rev ?g1 = rv" "same_sets ?D (ds ?g1)"
      using mi rv inv by (simp_all add: same_sets_refl)
    note dm = drv_merge [OF tree inv N rk cn c_in sub(1) g1]
    let ?D' = "merged (ds ?g1) (ex_of mi rv c) (ey_of mi rv c)"
    let ?g' = "?g1\<lparr>ds := ?D'\<rparr>"
    have it: "genie_iter thr i s = ok (?g', lastm)"
      unfolding s_eq genie_iter_def using False sb dm(1) by simp
    have cur': "curidx ?g' = int ((ch' @ [S]) ! 0)" using tlc(1) by (simp add: chain_inv_def)
    have up: "int c < curidx ?g'"
      unfolding cur' using chain_ext_nth_less [OF srt bnd, of 0 1] ch by simp
    have "drv_inv mi rv N S ch0 (Suc j) (?g', lastm)"
      unfolding drv_inv_def
    proof (rule exI [of _ ?g'], rule exI [of _ lastm], rule exI [of _ ch'],
        rule exI [of _ "dn @ [c]"], intro conjI)
      show "(?g', lastm) = (?g', lastm)" by (rule refl)
      show "mst_i ?g' = mi" "denoise_index_rev ?g' = rv" using mi rv by simp_all
      show "gds_inv (ds ?g')" "ds_n (ds ?g') = N" "rank_of (par (ds ?g')) N = N - Suc j"
        using dm(2,3,4) by simp_all
      show "lastm \<le> int (get_smallest_count (ds ?g'))" using lm dm(6) by simp
      show "chain_inv (next_edge ?g') (prev_edge ?g') (curidx ?g') S ch'" using tlc(1) by simp
      have "c \<notin> set ch'" using srt ch by auto
      then show "set ch' \<union> set (dn @ [c]) = set ch0" using part ch by auto
      show "set ch' \<inter> set (dn @ [c]) = {}" using disj ch \<open>c \<notin> set ch'\<close> by auto
      show "\<forall>x<N. \<forall>y<N. rep_of (par (ds ?g')) x = rep_of (par (ds ?g')) y
             \<longleftrightarrow> (x, y) \<in> conn (map (pair_of mi rv) (dn @ [c]))"
        using dm(5) by simp
      show "lastidx ?g' < curidx ?g' \<or>
         (\<exists>t\<le>length ch'. lastidx ?g' = int ((ch' @ [S]) ! t) \<and>
            (int (get_smallest_count (ds ?g')) = lastm \<longrightarrow>
               (\<forall>i<t. \<not> touches mi rv (ds ?g') lastm (ch' ! i))))"
        using memo
      proof
        assume "lastidx g < curidx g"
        then have "lastidx ?g' < curidx ?g'" using up tlc(2) by simp
        then show ?thesis by (rule disjI1)
      next
        assume "\<exists>t\<le>length ch. lastidx g = int ((ch @ [S]) ! t) \<and>
            (?m = lastm \<longrightarrow> (\<forall>i<t. \<not> touches mi rv ?D lastm (ch ! i)))"
        then obtain t where t: "t \<le> length ch" "lastidx g = int ((ch @ [S]) ! t)"
          "?m = lastm \<longrightarrow> (\<forall>i<t. \<not> touches mi rv ?D lastm (ch ! i))" by blast
        show ?thesis
        proof (cases t)
          case 0
          then have "lastidx ?g' < curidx ?g'" using t(2) ch up by simp
          then show ?thesis by (rule disjI1)
        next
          case (Suc t1)
          have a: "t1 \<le> length ch'" using t(1) Suc ch by simp
          have b: "lastidx ?g' = int ((ch' @ [S]) ! t1)" using t(2) Suc ch by simp
          have d: "\<forall>i<t1. \<not> touches mi rv (ds ?g') lastm (ch' ! i)"
            if eq: "int (get_smallest_count (ds ?g')) = lastm"
          proof (intro allI impI)
            fix i' assume i': "i' < t1"
            have m: "?m = lastm" using lm dm(6) eq by simp
            then have "\<not> touches mi rv ?D ?m (ch ! Suc i')" using t(3) i' Suc by simp
            from dm(7) [OF this] show "\<not> touches mi rv (ds ?g') lastm (ch' ! i')"
              using m ch by simp
          qed
          show ?thesis using a b d by blast
        qed
      qed
    qed
    then show ?thesis using it by blast
  qed
qed


subsection \<open>The loop on a tree\<close>

lemma drv_inv_init:
  fixes g0 :: "'a CGenie"
  assumes "tree_engine g0 N S ch0"
  shows "drv_inv (mst_i g0) (denoise_index_rev g0) N S ch0 0 (g0\<lparr>ds := CGiniDisjointSets_new N\<rparr>, 0)"
proof -
  let ?g = "g0\<lparr>ds := CGiniDisjointSets_new N\<rparr>"
  have chain: "chain_inv (next_edge g0) (prev_edge g0) (curidx g0) S ch0"
    and l: "lastidx g0 = curidx g0"
    using assms by (simp_all add: tree_engine_def)
  have rk: "rank_of [0..<N] N = N" by (simp add: rank_of_def rep_of_upt)
  have memo: "\<exists>t\<le>length ch0. lastidx ?g = int ((ch0 @ [S]) ! t) \<and>
      (int (get_smallest_count (ds ?g)) = 0 \<longrightarrow>
         (\<forall>i<t. \<not> touches (mst_i g0) (denoise_index_rev g0) (ds ?g) 0 (ch0 ! i)))"
    using chain l by (intro exI [of _ 0]) (simp add: chain_inv_def)
  show ?thesis
    unfolding drv_inv_def
  proof (rule exI [of _ ?g], rule exI [of _ 0], rule exI [of _ ch0], rule exI [of _ "[]"],
      intro conjI)
    show "(?g, 0) = (?g, 0::int)" by (rule refl)
    show "mst_i ?g = mst_i g0" "denoise_index_rev ?g = denoise_index_rev g0" by simp_all
    show "gds_inv (ds ?g)" by (simp add: gds_inv_new)
    show "ds_n (ds ?g) = N" by (simp add: CGiniDisjointSets_new_def)
    show "rank_of (par (ds ?g)) N = N - 0" using rk by (simp add: CGiniDisjointSets_new_def)
    show "0 \<le> int (get_smallest_count (ds ?g))" by simp
    show "chain_inv (next_edge ?g) (prev_edge ?g) (curidx ?g) S ch0" using chain by simp
    show "set ch0 \<union> set [] = set ch0" "set ch0 \<inter> set [] = {}" by simp_all
    show "\<forall>x<N. \<forall>y<N. rep_of (par (ds ?g)) x = rep_of (par (ds ?g)) y
        \<longleftrightarrow> (x, y) \<in> conn (map (pair_of (mst_i g0) (denoise_index_rev g0)) [])"
      by (simp add: CGiniDisjointSets_new_def rep_of_upt conn_Nil)
    show "lastidx ?g < curidx ?g \<or>
      (\<exists>t\<le>length ch0. lastidx ?g = int ((ch0 @ [S]) ! t) \<and>
        (int (get_smallest_count (ds ?g)) = 0 \<longrightarrow>
           (\<forall>i<t. \<not> touches (mst_i g0) (denoise_index_rev g0) (ds ?g) 0 (ch0 ! i))))"
      using memo by (rule disjI2)
  qed
qed

text \<open>On a tree with \<open>N\<close> elements the first \<open>J \<le> N - 1\<close> iterations all return, for every
  threshold.\<close>

lemma genie_run_total:
  fixes g0 :: "'a CGenie"
  assumes tree: "tree_engine g0 N S ch0" and J: "J + 1 \<le> N"
  shows "\<exists>s. forM [0..int J - 1] (genie_iter thr) (g0\<lparr>ds := CGiniDisjointSets_new N\<rparr>, 0) = ok s \<and>
      drv_inv (mst_i g0) (denoise_index_rev g0) N S ch0 J s"
proof -
  have "\<exists>s. forM [0..0 + int J - 1] (genie_iter thr) (g0\<lparr>ds := CGiniDisjointSets_new N\<rparr>, 0) = ok s \<and>
      drv_inv (mst_i g0) (denoise_index_rev g0) N S ch0 J s"
  proof (rule forM_total [where P = "drv_inv (mst_i g0) (denoise_index_rev g0) N S ch0"])
    show "drv_inv (mst_i g0) (denoise_index_rev g0) N S ch0 0 (g0\<lparr>ds := CGiniDisjointSets_new N\<rparr>, 0)"
      using tree by (rule drv_inv_init)
  next
    fix k and s :: "'a CGenie \<times> int"
    assume k: "k < J" and s: "drv_inv (mst_i g0) (denoise_index_rev g0) N S ch0 k s"
    have "tree_edges (mst_i g0) (denoise_index_rev g0) N ch0"
      using tree by (simp add: tree_engine_def)
    moreover have "k + 2 \<le> N" using k J by simp
    ultimately show "\<exists>s'. genie_iter thr (0 + int k) s = ok s' \<and>
        drv_inv (mst_i g0) (denoise_index_rev g0) N S ch0 (Suc k) s'"
      using s by (rule genie_iter_total)
  qed
  then show ?thesis by simp
qed

subsection \<open>The engine without noise points on a spanning tree\<close>

lemma linked_engine_chain:
  assumes "1 \<le> n"
  shows "chain_inv (next_edge (linked_engine d e n dg)) (prev_edge (linked_engine d e n dg))
      (curidx (linked_engine d e n dg)) (nat (n - 1)) [0..<nat (n - 1)]"
proof -
  let ?S = "nat (n - 1)"
  have S: "nat n = Suc ?S" using assms by simp
  have nth: "([0..<?S] @ [?S]) ! i = i" if "i \<le> ?S" for i
    using that by (cases "i < ?S") (simp_all add: nth_append)
  let ?ne = "map (\<lambda>i. int i + 1) [0..<?S] @ replicate (nat n - ?S) 0"
  let ?pe = "map (\<lambda>i. int i - 1) [0..<?S] @ replicate (nat n - ?S) 0"
  have f: "next_edge (linked_engine d e n dg) = ?ne" "prev_edge (linked_engine d e n dg) = ?pe"
    "curidx (linked_engine d e n dg) = 0"
    by (simp_all add: linked_engine_def plain_engine_def engine0_def)
  have a: "?ne ! ([0..<?S] ! i) = int (([0..<?S] @ [?S]) ! Suc i)" if "i < ?S" for i
    using that nth [of "Suc i"] by (simp add: nth_append)
  have b: "?pe ! ([0..<?S] ! i) = int ([0..<?S] ! (i - 1))" if "i < ?S" "0 < i" for i
    using that by (simp add: nth_append)
  have c: "(0::int) = int (([0..<?S] @ [?S]) ! 0)" using nth [of 0] by simp
  show ?thesis
    unfolding chain_inv_def f
  proof (intro conjI allI impI)
    show "length ?ne = Suc ?S" "length ?pe = Suc ?S" using S by simp_all
    show "sorted_wrt (<) [0..<?S]" by simp
    show "\<forall>c\<in>set [0..<?S]. c < ?S" by simp
    show "0 = int (([0..<?S] @ [?S]) ! 0)" by (rule c)
    show "?ne ! ([0..<?S] ! i) = int (([0..<?S] @ [?S]) ! Suc i)" if "i < length [0..<?S]" for i
      using that a by simp
    show "?pe ! ([0..<?S] ! i) = int ([0..<?S] ! (i - 1))" if "i < length [0..<?S]" "0 < i" for i
      using that b by simp
  qed
qed

lemma plain_pair_of:
  assumes "0 \<le> a" "a < n" "n < 2 ^ 64"
  shows "to_ull (map int [0..<nat n] ! nat a) = nat a"
  using assms by (simp add: to_ull_nat)

lemma plain_tree_edges:
  assumes n: "1 \<le> n" "n < 2 ^ 64"
    and len: "length e = 2 * nat (n - 1)"
    and rng: "\<forall>x\<in>set e. 0 \<le> x \<and> x < n"
    and tree: "spanning_tree e (nat n)"
  shows "tree_edges e (map int [0..<nat n]) (nat n) [0..<nat (n - 1)]"
proof -
  let ?S = "nat (n - 1)" and ?rv = "map int [0..<nat n]"
  have S: "nat n - 1 = ?S" by simp
  have mem: "0 \<le> e ! i \<and> e ! i < n" if "i < 2 * ?S" for i
    using rng len that by simp
  have ex: "ex_of e ?rv c = nat (e ! (2 * c))" and ey: "ey_of e ?rv c = nat (e ! Suc (2 * c))"
    if "c < ?S" for c
  proof -
    have a: "0 \<le> e ! (2 * c)" "e ! (2 * c) < n" "0 \<le> e ! Suc (2 * c)" "e ! Suc (2 * c) < n"
      using mem [of "2 * c"] mem [of "Suc (2 * c)"] that by simp_all
    then have b: "e ! (2 * c) < 2 ^ 64" "e ! Suc (2 * c) < 2 ^ 64" using n(2) by linarith+
    have "nat (e ! (2 * c)) < nat n" "nat (e ! Suc (2 * c)) < nat n" using a by linarith+
    then show "ex_of e ?rv c = nat (e ! (2 * c))" "ey_of e ?rv c = nat (e ! Suc (2 * c))"
      using a(1,3) b by (simp_all add: ex_of_def ey_of_def to_ull_nat)
  qed
  have pr: "pair_of e ?rv c = (nat (e ! (2 * c)), nat (e ! (2 * c + 1)))" if "c < ?S" for c
    using ex [OF that] ey [OF that] by (simp add: pair_of_def)
  have all: "map (pair_of e ?rv) [0..<?S] = edges_of e ?S"
    unfolding edges_of_def by (rule map_cong) (simp_all add: pr)
  have wo: "map (pair_of e ?rv) (removeAll c [0..<?S]) = edges_without e ?S c" for c
    unfolding edges_without_def
    by (rule map_cong) (auto simp: pr)
  have oks: "edge_ok e ?rv (nat n) c" if "c < ?S" for c
    using mem [of "2 * c"] mem [of "Suc (2 * c)"] that len ex [OF that] ey [OF that]
    by (simp add: edge_ok_def)
  have br: "pair_of e ?rv c \<notin> conn (edges_without e ?S c)" if "c < ?S" for c
    using tree that unfolding spanning_tree_def S by (simp add: pr edges_of_nth)
  show ?thesis
    unfolding tree_edges_def all wo
    using oks br tree unfolding spanning_tree_def S by simp
qed

lemma plain_tree_engine:
  assumes n: "1 \<le> n" "n < 2 ^ 64"
    and len: "length e = 2 * nat (n - 1)"
    and rng: "\<forall>x\<in>set e. 0 \<le> x \<and> x < n"
    and tree: "spanning_tree e (nat n)"
  shows "tree_engine (linked_engine d e n dg) (nat n) (nat (n - 1)) [0..<nat (n - 1)]"
  unfolding tree_engine_def
  using linked_engine_chain [OF n(1), of d e dg] plain_tree_edges [OF assms]
  by (simp add: linked_engine_fields) (simp add: linked_engine_def plain_engine_def engine0_def)


text \<open>From the input to the engine: on a sorted spanning tree without noise points the
  constructor and \<open>skiplist_init\<close> succeed and build such an engine.\<close>

lemma tree_input_engine:
  fixes d :: "('a::linorder) list"
  assumes n: "2 \<le> n" "n < 2 ^ 63"
    and d: "length d = nat (n - 1)" "sorted d"
    and len: "length e = 2 * nat (n - 1)"
    and rng: "\<forall>x\<in>set e. 0 \<le> x \<and> x < n"
    and tree: "spanning_tree e (nat n)"
  shows "\<exists>dg. CGenie_new d e n False = ok (plain_engine d e n dg) \<and>
      skiplist_init (plain_engine d e n dg) = ok (linked_engine d e n dg) \<and>
      tree_engine (linked_engine d e n dg) (nat n) (nat (n - 1)) [0..<nat (n - 1)]"
proof -
  let ?N = "nat n" and ?m = "nat (n - 1)"
  have n0: "0 \<le> n" "int ?m = n - 1" "n < 2 ^ 64" "1 \<le> n" "?N - 1 = ?m" using n by simp_all
  have norej: "\<not> (\<exists>i<?m. rejected e n i)"
  proof
    assume "\<exists>i<?m. rejected e n i"
    then obtain i where i: "i < ?m" "rejected e n i" by blast
    have "e ! (2 * i) \<in> set e" "e ! (2 * i + 1) \<in> set e" using len i(1) by simp_all
    then have "edge_u e i = edge_v e i"
      using i(2) rng by (auto simp: rejected_def edge_u_def edge_v_def)
    then have "edges_of e ?m ! i \<in> conn (edges_without e ?m i)"
      using i(1) by (simp add: edges_of_nth edge_u_def edge_v_def)
    then show False using tree i(1) unfolding spanning_tree_def n0(5) by blast
  qed
  define dg where "dg = map (\<lambda>v. int (incident_count e ?m (int v))) [0..<?N]"
  have deg: "Cget_graph_node_degrees e (n - 1) n (replicate ?N 0) = ok dg"
    using degrees_eq [OF len, of "replicate ?N 0" n] norej n0 by (simp add: dg_def)
  have srt: "check_sorted d n = ok ()"
    using check_sorted_eq [of d n] d n0 by (simp add: unsorted_iff)
  have "CGenie_new d e n False = ok (plain_engine d e n dg)"
    using CGenie_new_eq [OF n0(1), of d e False] srt deg by simp
  moreover have "skiplist_init (plain_engine d e n dg) = ok (linked_engine d e n dg)"
    using n0(1) by (rule skiplist_init_plain)
  moreover have "tree_engine (linked_engine d e n dg) ?N ?m [0..<?m]"
    using n0(4,3) len rng tree by (rule plain_tree_engine)
  ultimately show ?thesis by blast
qed

text \<open>The loop of \<open>do_genie\<close> on a tree returns for every threshold and every number of
  clusters from 1 to \<open>N - 1\<close>.\<close>

lemma do_genie_total:
  fixes g0 :: "'a CGenie"
  assumes tree: "tree_engine g0 N S ch0" and N: "cg_n g0 - noise_count g0 = int N"
    and k: "1 \<le> k" "k < int N"
  shows "\<exists>g'. do_genie g0 k thr = ok g'"
proof -
  let ?J = "nat (int N - k)"
  have J: "?J + 1 \<le> N" "int ?J = int N - k" using k by simp_all
  from genie_run_total [OF tree J(1), of thr] obtain g' lastm
    where "forM [0..int ?J - 1] (genie_iter thr) (g0\<lparr>ds := CGiniDisjointSets_new N\<rparr>, 0) = ok (g', lastm)"
    by (cases rule: exE) auto
  then show ?thesis
    using k unfolding do_genie_def N J(2) by simp
qed

text \<open>
  C3: take the state \<open>(g, lastm)\<close> at the start of iteration \<open>j\<close> of the loop of \<open>do_genie\<close>
  (the state reached from the singletons by the iterations before it), for any engine and
  any threshold, and let the Gini index exceed the threshold.  If the iteration completes,
  then it is the Genie branch that chose the edge \<open>(i1, i2)\<close>; its end points denote two
  elements of different sets \<open>A\<close> and \<open>B\<close>, the merge replaces them by \<open>A \<union> B\<close>, and
  \<open>min(|A|, |B|)\<close> is the value of \<open>get_smallest_count\<close> before the merge, which is also the
  new \<open>lastm\<close>.  And the iteration does complete when the edges in the skip-list form a tree
  on the \<open>N\<close> elements and at least two sets are left (\<open>j \<le> N - 2\<close>): the walk of the Genie
  branch finds an edge, and the merge joins two different sets.
\<close>

theorem C3_genie_branch_smallest:
  fixes g0 :: "'a CGenie"
  assumes run: "forM [0..j - 1] (genie_iter thr) (g0\<lparr>ds := CGiniDisjointSets_new N\<rparr>, 0) = ok (g, lastm)"
    and gini: "get_gini (ds g) > thr"
  shows "(\<forall>g' lastm'. genie_iter thr j (g, lastm) = ok (g', lastm') \<longrightarrow>
      (\<exists>g1 i1 i2 x y.
        genie_branch g lastm = ok (g1, i1, i2, lastm') \<and>
        rd (denoise_index_rev g) i1 = ok x \<and> rd (denoise_index_rev g) i2 = ok y \<and>
        to_ull x < ds_n (ds g) \<and> to_ull y < ds_n (ds g) \<and>
        class_of (par (ds g)) (to_ull x) \<inter> class_of (par (ds g)) (to_ull y) = {} \<and>
        class_of (par (ds g')) (to_ull x)
          = class_of (par (ds g)) (to_ull x) \<union> class_of (par (ds g)) (to_ull y) \<and>
        lastm' = int (get_smallest_count (ds g)) \<and>
        min (card (class_of (par (ds g)) (to_ull x))) (card (class_of (par (ds g)) (to_ull y)))
          = get_smallest_count (ds g))) \<and>
    (tree_engine g0 N S ch0 \<and> 0 \<le> j \<and> j + 2 \<le> int N \<longrightarrow>
      (\<exists>g' lastm'. genie_iter thr j (g, lastm) = ok (g', lastm')))"
proof (intro conjI allI impI)
  fix g' lastm'
  assume "genie_iter thr j (g, lastm) = ok (g', lastm')"
  with run gini show "\<exists>g1 i1 i2 x y.
        genie_branch g lastm = ok (g1, i1, i2, lastm') \<and>
        rd (denoise_index_rev g) i1 = ok x \<and> rd (denoise_index_rev g) i2 = ok y \<and>
        to_ull x < ds_n (ds g) \<and> to_ull y < ds_n (ds g) \<and>
        class_of (par (ds g)) (to_ull x) \<inter> class_of (par (ds g)) (to_ull y) = {} \<and>
        class_of (par (ds g')) (to_ull x)
          = class_of (par (ds g)) (to_ull x) \<union> class_of (par (ds g)) (to_ull y) \<and>
        lastm' = int (get_smallest_count (ds g)) \<and>
        min (card (class_of (par (ds g)) (to_ull x))) (card (class_of (par (ds g)) (to_ull y)))
          = get_smallest_count (ds g)"
    by (rule genie_branch_smallest)
next
  assume a: "tree_engine g0 N S ch0 \<and> 0 \<le> j \<and> j + 2 \<le> int N"
  let ?J = "nat j"
  have "0 \<le> j" "j + 2 \<le> int N" using a by simp_all
  then have J: "?J + 2 \<le> N" "int ?J = j" by linarith+
  then have "?J + 1 \<le> N" by simp
  from genie_run_total [OF conjunct1 [OF a] this, of thr] run
  have inv: "drv_inv (mst_i g0) (denoise_index_rev g0) N S ch0 ?J (g, lastm)"
    unfolding J(2) by auto
  have "tree_edges (mst_i g0) (denoise_index_rev g0) N ch0"
    using a by (simp add: tree_engine_def)
  from genie_iter_total [OF this J(1) inv, of thr j]
  show "\<exists>g' lastm'. genie_iter thr j (g, lastm) = ok (g', lastm')" by auto
qed


theorem C3_genie_branch_smallest_witness:
  "bindR (CGenie_new [1, 2, 3, 4 :: int] [0, 1, 1, 2, 2, 3, 3, 4] 5 False) skiplist_init = ok path_engine
   \<and> forM [0..1 - 1] (genie_iter 0) (path_engine\<lparr>ds := CGiniDisjointSets_new 5\<rparr>, 0)
       = ok (path_engine\<lparr>curidx := 1,
               ds := \<lparr>ds_n = 5, ds_k = 4, par = [0, 0, 2, 3, 4], cnt = [2, 1, 1, 1, 1]\<rparr>\<rparr>, 0)
   \<and> get_gini \<lparr>ds_n = 5, ds_k = 4, par = [0, 0, 2, 3, 4], cnt = [2, 1, 1, 1, 1]\<rparr> > 0
   \<and> genie_iter 0 1 (path_engine\<lparr>curidx := 1,
               ds := \<lparr>ds_n = 5, ds_k = 4, par = [0, 0, 2, 3, 4], cnt = [2, 1, 1, 1, 1]\<rparr>\<rparr>, 0)
       = ok (path_engine\<lparr>curidx := 2, lastidx := 2,
               ds := \<lparr>ds_n = 5, ds_k = 3, par = [0, 0, 0, 3, 4], cnt = [3, 1, 1, 1, 1]\<rparr>\<rparr>, 1)
   \<and> get_smallest_count \<lparr>ds_n = 5, ds_k = 4, par = [0, 0, 2, 3, 4], cnt = [2, 1, 1, 1, 1]\<rparr> = 1
   \<and> min (card (class_of [0, 0, 2, 3, 4] 1)) (card (class_of [0, 0, 2, 3, 4] 2)) = 1
   \<and> spanning_tree [0, 1, 1, 2, 2, 3, 3, 4] 5
   \<and> tree_engine path_engine 5 4 [0, 1, 2, 3]
   \<and> (\<exists>g' lastm'. genie_iter 0 1 (path_engine\<lparr>curidx := 1,
               ds := \<lparr>ds_n = 5, ds_k = 4, par = [0, 0, 2, 3, 4], cnt = [2, 1, 1, 1, 1]\<rparr>\<rparr>, 0)
       = ok (g', lastm'))"
proof -
  let ?e = "[0, 1, 1, 2, 2, 3, 3, 4 :: int]"
  let ?E = "[(0, 1), (1, 2), (2, 3), (3, 4)] :: (nat \<times> nat) list"
  let ?D1 = "\<lparr>ds_n = 5, ds_k = 4, par = [0, 0, 2, 3, 4], cnt = [2, 1, 1, 1, 1]\<rparr>"
  let ?G1 = "path_engine\<lparr>curidx := 1, ds := ?D1\<rparr>"
  let ?G2 = "path_engine\<lparr>curidx := 2, lastidx := 2,
               ds := \<lparr>ds_n = 5, ds_k = 3, par = [0, 0, 0, 3, 4], cnt = [3, 1, 1, 1, 1]\<rparr>\<rparr>"
  have init: "bindR (CGenie_new [1, 2, 3, 4 :: int] ?e 5 False) skiplist_init = ok path_engine"
    by code_simp
  have a: "forM [0..1 - 1] (genie_iter 0) (path_engine\<lparr>ds := CGiniDisjointSets_new 5\<rparr>, 0) = ok (?G1, 0)"
    by code_simp
  have b: "get_gini (ds ?G1) > 0" by code_simp
  have c: "genie_iter 0 1 (?G1, 0) = ok (?G2, 1)" by code_simp
  have d: "genie_branch ?G1 0 = ok (?G2\<lparr>ds := ?D1\<rparr>, 1, 2, 1)" by code_simp
  have s: "get_smallest_count (ds ?G1) = 1" by code_simp
  have r: "rd (denoise_index_rev ?G1) 1 = ok 1" "rd (denoise_index_rev ?G1) 2 = ok 2"
    "to_ull 1 = 1" "to_ull 2 = 2"
    by code_simp+
  have E: "edges_of ?e (5 - 1) = ?E"
    by (simp add: edges_of_def eval_nat_numeral)
  have W: "edges_without ?e (5 - 1) 0 = [(1, 2), (2, 3), (3, 4)]"
    "edges_without ?e (5 - 1) 1 = [(0, 1), (2, 3), (3, 4)]"
    "edges_without ?e (5 - 1) 2 = [(0, 1), (1, 2), (3, 4)]"
    "edges_without ?e (5 - 1) 3 = [(0, 1), (1, 2), (2, 3)]"
    by (simp_all add: edges_without_def eval_nat_numeral)
  have e01: "(0, 1) \<in> conn ?E" and e12: "(1, 2) \<in> conn ?E" and e23: "(2, 3) \<in> conn ?E"
    and e34: "(3, 4) \<in> conn ?E"
    by (rule conn_edge, simp)+
  have z: "(0, x) \<in> conn ?E" if "x < 5" for x
  proof -
    have "x = 0 \<or> x = 1 \<or> x = 2 \<or> x = 3 \<or> x = 4" using that by auto
    moreover have "(0, 2) \<in> conn ?E" using e01 e12 by (rule conn_trans)
    moreover from this have "(0, 3) \<in> conn ?E" using e23 by (rule conn_trans)
    moreover from this have "(0, 4) \<in> conn ?E" using e34 by (rule conn_trans)
    ultimately show ?thesis using e01 by auto
  qed
  have connected: "\<forall>x<5. \<forall>y<5. (x, y) \<in> conn ?E"
    using z conn_sym conn_trans by blast
  have b0: "(0, 1) \<notin> conn [(1, 2), (2, 3), (3, 4)]"
  proof
    assume h: "(0, 1) \<in> conn [(1, 2), (2, 3), (3, 4)]"
    have "((0::nat) \<le> 0) = ((1::nat) \<le> 0)"
      by (rule conn_labelled [OF h, where f = "\<lambda>v. v \<le> 0"]) auto
    then show False by simp
  qed
  have b1: "(1, 2) \<notin> conn [(0, 1), (2, 3), (3, 4)]"
  proof
    assume h: "(1, 2) \<in> conn [(0, 1), (2, 3), (3, 4)]"
    have "((1::nat) \<le> 1) = ((2::nat) \<le> 1)"
      by (rule conn_labelled [OF h, where f = "\<lambda>v. v \<le> 1"]) auto
    then show False by simp
  qed
  have b2: "(2, 3) \<notin> conn [(0, 1), (1, 2), (3, 4)]"
  proof
    assume h: "(2, 3) \<in> conn [(0, 1), (1, 2), (3, 4)]"
    have "((2::nat) \<le> 2) = ((3::nat) \<le> 2)"
      by (rule conn_labelled [OF h, where f = "\<lambda>v. v \<le> 2"]) auto
    then show False by simp
  qed
  have b3: "(3, 4) \<notin> conn [(0, 1), (1, 2), (2, 3)]"
  proof
    assume h: "(3, 4) \<in> conn [(0, 1), (1, 2), (2, 3)]"
    have "((3::nat) \<le> 3) = ((4::nat) \<le> 3)"
      by (rule conn_labelled [OF h, where f = "\<lambda>v. v \<le> 3"]) auto
    then show False by simp
  qed
  have bridges: "\<forall>c<5 - 1. edges_of ?e (5 - 1) ! c \<notin> conn (edges_without ?e (5 - 1) c)"
  proof (intro allI impI)
    fix c :: nat
    assume "c < 5 - 1"
    then have "c = 0 \<or> c = 1 \<or> c = 2 \<or> c = 3" by auto
    then show "edges_of ?e (5 - 1) ! c \<notin> conn (edges_without ?e (5 - 1) c)"
      unfolding E using b0 b1 b2 b3 W by auto
  qed
  have st: "spanning_tree ?e 5"
    unfolding spanning_tree_def E using connected bridges [unfolded E] by blast
  have pe: "path_engine = linked_engine [1, 2, 3, 4] ?e 5 [1, 2, 2, 2, 1]"
    by code_simp
  have "tree_engine (linked_engine [1, 2, 3, 4 :: int] ?e 5 [1, 2, 2, 2, 1]) (nat 5) (nat (5 - 1))
      [0..<nat (5 - 1)]"
    using st by (intro plain_tree_engine) simp_all
  moreover have "[0..<nat (5 - 1)] = [0, 1, 2, 3]" by (simp add: eval_nat_numeral upt_rec)
  ultimately have te: "tree_engine path_engine 5 4 [0, 1, 2, 3]"
    unfolding pe [symmetric] by simp
  note inst = C3_genie_branch_smallest [OF a b, where S = 4 and ?ch0.0 = "[0, 1, 2, 3]"]
  from inst c obtain g1 i1 i2 x y
    where "genie_branch ?G1 0 = ok (g1, i1, i2, 1)"
      and "rd (denoise_index_rev ?G1) i1 = ok x" "rd (denoise_index_rev ?G1) i2 = ok y"
      and "min (card (class_of (par (ds ?G1)) (to_ull x))) (card (class_of (par (ds ?G1)) (to_ull y)))
        = get_smallest_count (ds ?G1)"
    by blast
  then have "min (card (class_of (par (ds ?G1)) 1)) (card (class_of (par (ds ?G1)) 2)) = 1"
    using d r s by simp
  then have m: "min (card (class_of [0, 0, 2, 3, 4] 1)) (card (class_of [0, 0, 2, 3, 4] 2)) = 1"
    by simp
  have ex: "\<exists>g' lastm'. genie_iter 0 1 (?G1, 0) = ok (g', lastm')"
    using inst te by simp
  have b': "get_gini ?D1 > 0" using b by simp
  have s': "get_smallest_count ?D1 = 1" using s by simp
  show ?thesis using init a b' c s' m st te ex by blast
qed

end
